theory Spec2Isabelle
  imports Main "HOL-Library.Word"
begin

section \<open>Data model of the recordset decoder (src/recordset.c)\<close>

type_synonym byte = "8 word"

text \<open>
  The fields of \<^verbatim>\<open>struct ldb_table\<close> that the decoder reads. Both are C ints.
\<close>

record ldb_table =
  key_ln :: int
  rec_ln :: int

text \<open>
  Modelled from the spec: the macro \<^verbatim>\<open>LDB_KEY_LN\<close> is not defined in the sources of the
  decoder. The spec fixes the primary key at 4 bytes, and the decoder itself compares
  subkeys against \<^verbatim>\<open>key + 4\<close>.
\<close>

definition LDB_KEY_LN :: int where
  "LDB_KEY_LN = 4"

text \<open>
  A read outside the buffer a pointer refers to is undefined behaviour in C; the model
  makes it a value.
\<close>

datatype fault = OutOfBounds

text \<open>
  The arguments of one handler invocation. Pointers into the node buffer are the buffer
  together with an offset; a NULL subkey is \<open>None\<close>. The iteration number is the
  \<^verbatim>\<open>uint32_t\<close> counter converted to \<^verbatim>\<open>int\<close>.
\<close>

record handler_args =
  a_key :: "byte list"
  a_subkey :: "nat option"
  a_subkey_ln :: int
  a_node :: "byte list"
  a_data :: nat
  a_datalen :: "32 word"
  a_iteration :: int

text \<open>
  A handler receives the user context (\<^verbatim>\<open>void_ptr\<close>) and the arguments, and returns the
  stop flag together with the context as it has left it.
\<close>

type_synonym 'c handler = "'c \<Rightarrow> handler_args \<Rightarrow> bool \<times> 'c"

text \<open>
  The functions, macros and constants the decoder and the dump driver use but which are
  defined elsewhere in the repository. They are parameters of the model.
  \<^item> \<open>LDB_MAX_REC_LN\<close>: the maximum permitted record length (a C int constant);
  \<^item> \<open>ldb_open\<close>: whether opening the backing store of the key succeeds;
  \<^item> \<open>ldb_node_read\<close>: from the sector (or NULL), the table, the key and the cursor,
    the next cursor, the node size and the node buffer;
  \<^item> \<open>ldb_validate_node\<close>: the node validator, on node, node size and subkey length;
  \<^item> \<open>ldb_load_sector\<close>: the sector image for a leading key byte, NULL when there is none;
  \<^item> \<open>ldb_map_pointer_pos\<close>: the existence map, nonzero when the key may hold data.
\<close>

record ldb_externs =
  LDB_MAX_REC_LN :: int
  ldb_open :: "ldb_table \<Rightarrow> byte list \<Rightarrow> bool"
  ldb_node_read :: "byte list option \<Rightarrow> ldb_table \<Rightarrow> byte list \<Rightarrow> 64 word
                      \<Rightarrow> 64 word \<times> 32 word \<times> byte list"
  ldb_validate_node :: "byte list \<Rightarrow> 32 word \<Rightarrow> 8 word \<Rightarrow> bool"
  ldb_load_sector :: "ldb_table \<Rightarrow> byte \<Rightarrow> byte list option"
  ldb_map_pointer_pos :: "byte list \<Rightarrow> 64 word"

text \<open>
  The local variables of \<^verbatim>\<open>ldb_fetch_recordset\<close> that survive a loop iteration
  (\<open>records\<close>, \<open>is_done\<close> for the C variable \<^verbatim>\<open>done\<close>), the user context, and two
  observation logs that the C code does not have: every handler invocation with the flag
  it returned, and every range of the node buffer the decoder itself has read
  (offset and length).
\<close>

record 'c dec_state =
  records :: "32 word"
  is_done :: bool
  ctx :: 'c
  calls :: "(handler_args \<times> bool) list"
  reads :: "(nat \<times> nat) list"

text \<open>
  Modelled from the spec: \<^verbatim>\<open>uint16_read\<close> is not in the sources; the spec describes it
  as reading a 2-byte unsigned integer in big-endian order at the given address.
  The result is \<open>None\<close> when the two bytes are not inside the buffer.
\<close>

definition uint16_read :: "byte list \<Rightarrow> nat \<Rightarrow> 16 word option" where
  "uint16_read buf off =
     (if off + 2 \<le> length buf
      then Some (of_nat (unat (buf ! off) * 256 + unat (buf ! (off + 1))))
      else None)"

text \<open>
  \<^verbatim>\<open>memcmp(subkey, key + 4, subkey_ln) == 0\<close>: both ranges must lie in their buffers.
\<close>

definition memcmp_eq :: "byte list \<Rightarrow> nat \<Rightarrow> byte list \<Rightarrow> nat \<Rightarrow> nat \<Rightarrow> bool option" where
  "memcmp_eq a i b j n =
     (if i + n \<le> length a \<and> j + n \<le> length b
      then Some (take n (drop i a) = take n (drop j b))
      else None)"

definition log_read :: "nat \<Rightarrow> nat \<Rightarrow> 'c dec_state \<Rightarrow> 'c dec_state" where
  "log_read off n st = st\<lparr>reads := reads st @ [(off, n)]\<rparr>"

text \<open>
  \<^verbatim>\<open>done = ldb_record_handler(..., records++, void_ptr)\<close>: the handler sees the old
  value of the counter as its iteration number (the callers below leave \<open>a_iteration\<close>
  at 0, and it is filled in here), the flag it returns becomes \<open>done\<close>, and the
  invocation is logged.
\<close>

definition invoke :: "'c handler \<Rightarrow> handler_args \<Rightarrow> 'c dec_state \<Rightarrow> 'c dec_state" where
  "invoke h a st =
     (let a' = a\<lparr>a_iteration := sint (records st)\<rparr>;
          r = h (ctx st) a'
      in st\<lparr>records := records st + 1, is_done := fst r, ctx := snd r,
              calls := calls st @ [(a', fst r)]\<rparr>)"

section \<open>The decoder\<close>

text \<open>
  Lines 102 to 116: the records of one matched dataset. \<open>dataset_size\<close> and
  \<open>record_size\<close> are C ints holding the 16-bit value of \<^verbatim>\<open>uint16_read\<close>; the
  cursor \<open>dataset_ptr\<close> is a \<^verbatim>\<open>uint32_t\<close>. The dataset starts at \<open>node + node_ptr\<close>.
\<close>

function record_loop ::
  "ldb_externs \<Rightarrow> 'c handler \<Rightarrow> byte list \<Rightarrow> byte list \<Rightarrow> nat \<Rightarrow> 8 word \<Rightarrow> 32 word
     \<Rightarrow> 16 word \<Rightarrow> 32 word \<Rightarrow> 'c dec_state \<Rightarrow> fault + 'c dec_state" where
  "record_loop E h key node subkey subkey_ln node_ptr dataset_size dataset_ptr st =
     (if dataset_ptr < ucast dataset_size then
        (case uint16_read node (unat node_ptr + unat dataset_ptr) of
           None \<Rightarrow> Inl OutOfBounds
         | Some record_size \<Rightarrow>
             let st1 = log_read (unat node_ptr + unat dataset_ptr) 2 st;
                 dataset_ptr1 = dataset_ptr + 2;
                 st2 = (if uint record_size + 32 < LDB_MAX_REC_LN E
                        then invoke h \<lparr>a_key = key, a_subkey = Some subkey,
                               a_subkey_ln = uint subkey_ln, a_node = node,
                               a_data = unat node_ptr + unat dataset_ptr1,
                               a_datalen = ucast record_size, a_iteration = 0\<rparr> st1
                        else st1)
             in record_loop E h key node subkey subkey_ln node_ptr dataset_size
                  (dataset_ptr1 + ucast record_size) st2)
      else Inr st)"
  by pat_completeness auto

lemma unat_ucast_16_32: "unat (ucast (w :: 16 word) :: 32 word) = unat w"
  by (simp add: unsigned_ucast_eq take_bit_nat_eq_self_iff order_less_trans [OF unsigned_less])

lemma unat16_lt: "unat (w :: 16 word) < 65536"
  using unsigned_less [of w, where 'a = nat] by simp

lemma dataset_ptr_advance:
  fixes dataset_ptr :: "32 word" and dataset_size record_size :: "16 word"
  assumes "dataset_ptr < ucast dataset_size"
  shows "unat (dataset_ptr + 2 + ucast record_size) = unat dataset_ptr + 2 + unat record_size"
proof -
  have a: "unat dataset_ptr < unat dataset_size"
    using assms by (simp add: word_less_nat_alt unat_ucast_16_32)
  have b: "unat dataset_size < 65536" "unat record_size < 65536"
    by (rule unat16_lt)+
  have c: "unat (dataset_ptr + 2) = unat dataset_ptr + 2"
    using a b by (simp add: unat_word_ariths)
  show ?thesis
    using a b c by (simp add: unat_word_ariths [where 'a = 32] unat_ucast_16_32)
qed

termination record_loop
  apply (relation "measure (\<lambda>(E, h, key, node, subkey, subkey_ln, node_ptr, dataset_size,
            dataset_ptr, st). unat dataset_size - unat dataset_ptr)")
   apply simp
  apply (simp add: dataset_ptr_advance)
  apply (simp add: word_less_nat_alt unat_ucast_16_32)
  done

declare record_loop.simps [simp del]

text \<open>
  Lines 94 to 96: \<open>key_matched\<close>. The subkey is compared only when filtering is not
  skipped and the subkey length is not zero.
\<close>

definition subkey_compared :: "bool \<Rightarrow> 8 word \<Rightarrow> bool" where
  "subkey_compared skip_subkey subkey_ln = (\<not> skip_subkey \<and> subkey_ln \<noteq> 0)"

definition key_matched :: "bool \<Rightarrow> 8 word \<Rightarrow> byte list \<Rightarrow> nat \<Rightarrow> byte list \<Rightarrow> bool option" where
  "key_matched skip_subkey subkey_ln node subkey key =
     (if subkey_compared skip_subkey subkey_ln
      then memcmp_eq node subkey key 4 (unat subkey_ln)
      else Some True)"

text \<open>
  Lines 86 to 119: one dataset group, the body of the loop over the groups of a node.
  It returns the cursor \<open>node_ptr\<close> after the group and the state. The cursor is a
  \<^verbatim>\<open>uint32_t\<close> and wraps.
\<close>

definition dataset_body ::
  "ldb_externs \<Rightarrow> 'c handler \<Rightarrow> byte list \<Rightarrow> bool \<Rightarrow> byte list \<Rightarrow> 8 word \<Rightarrow> 32 word
     \<Rightarrow> 'c dec_state \<Rightarrow> fault + 32 word \<times> 'c dec_state" where
  "dataset_body E h key skip_subkey node subkey_ln node_ptr st =
     (let subkey = unat node_ptr;
          node_ptr1 = node_ptr + ucast subkey_ln
      in case uint16_read node (unat node_ptr1) of
           None \<Rightarrow> Inl OutOfBounds
         | Some dataset_size \<Rightarrow>
            (let st1 = log_read (unat node_ptr1) 2 st;
                 node_ptr2 = node_ptr1 + 2
             in case key_matched skip_subkey subkey_ln node subkey key of
                  None \<Rightarrow> Inl OutOfBounds
                | Some m \<Rightarrow>
                   (let st2 = (if subkey_compared skip_subkey subkey_ln
                               then log_read subkey (unat subkey_ln) st1 else st1)
                    in case (if m then record_loop E h key node subkey subkey_ln node_ptr2
                                         dataset_size 0 st2
                             else Inr st2) of
                         Inl f \<Rightarrow> Inl f
                       | Inr st3 \<Rightarrow> Inr (node_ptr2 + ucast dataset_size, st3))))"

text \<open>
  Lines 84 to 120: the loop over the dataset groups of one node. On a node whose lengths
  are not consistent the cursor can wrap and the loop need not end, so the result is an
  option, \<open>None\<close> for a loop that never returns.
\<close>

partial_function (option) dataset_loop ::
  "ldb_externs \<Rightarrow> 'c handler \<Rightarrow> byte list \<Rightarrow> bool \<Rightarrow> byte list \<Rightarrow> 32 word \<Rightarrow> 8 word
     \<Rightarrow> 32 word \<Rightarrow> 'c dec_state \<Rightarrow> (fault + 'c dec_state) option" where
  "dataset_loop E h key skip_subkey node node_size subkey_ln node_ptr st =
     (if node_ptr < node_size \<and> \<not> is_done st then
        (case dataset_body E h key skip_subkey node subkey_ln node_ptr st of
           Inl f \<Rightarrow> Some (Inl f)
         | Inr (node_ptr', st') \<Rightarrow>
             dataset_loop E h key skip_subkey node node_size subkey_ln node_ptr' st')
      else Some (Inr st))"

declare dataset_loop.simps [code]

text \<open>
  Lines 73 to 121: what one iteration of the do-while loop does with the node it has
  read. The \<^verbatim>\<open>continue\<close> of line 79 leaves the state as it is.
\<close>

definition node_body ::
  "ldb_externs \<Rightarrow> 'c handler \<Rightarrow> ldb_table \<Rightarrow> byte list \<Rightarrow> bool \<Rightarrow> 8 word \<Rightarrow> byte list
     \<Rightarrow> 32 word \<Rightarrow> 'c dec_state \<Rightarrow> (fault + 'c dec_state) option" where
  "node_body E h table key skip_subkey subkey_ln node node_size st =
     (if rec_ln table \<noteq> 0
      then Some (Inr (invoke h \<lparr>a_key = key, a_subkey = None, a_subkey_ln = 0,
                       a_node = node, a_data = 0, a_datalen = node_size,
                       a_iteration = 0\<rparr> st))
      else if \<not> ldb_validate_node E node node_size subkey_ln
      then Some (Inr st)
      else dataset_loop E h key skip_subkey node node_size subkey_ln 0 st)"

text \<open>
  Lines 67 to 122: the do-while loop over the chained nodes. \<open>nxt\<close> is the C variable
  \<^verbatim>\<open>next\<close>. A chain that never reaches cursor 0 keeps the loop running forever:
  \<open>None\<close>.
\<close>

partial_function (option) node_loop ::
  "ldb_externs \<Rightarrow> 'c handler \<Rightarrow> byte list option \<Rightarrow> ldb_table \<Rightarrow> byte list \<Rightarrow> bool
     \<Rightarrow> 8 word \<Rightarrow> 64 word \<Rightarrow> 'c dec_state \<Rightarrow> (fault + 'c dec_state) option" where
  "node_loop E h sector table key skip_subkey subkey_ln nxt st =
     (case ldb_node_read E sector table key nxt of
        (nxt', node_size, node) \<Rightarrow>
          if node_size = 0 \<and> nxt' = 0 then Some (Inr st)
          else
            (case node_body E h table key skip_subkey subkey_ln node node_size st of
               None \<Rightarrow> None
             | Some (Inl f) \<Rightarrow> Some (Inl f)
             | Some (Inr st') \<Rightarrow>
                 if nxt' \<noteq> 0 \<and> \<not> is_done st'
                 then node_loop E h sector table key skip_subkey subkey_ln nxt' st'
                 else Some (Inr st')))"

declare node_loop.simps [code]

text \<open>
  \<^verbatim>\<open>ldb_fetch_recordset\<close>. The C function returns \<open>records\<close>; the model returns the
  whole final state, of which \<open>records\<close> is the C return value. \<open>subkey_ln\<close> is
  \<^verbatim>\<open>uint8_t subkey_ln = table.key_ln - LDB_KEY_LN\<close>.
\<close>

definition init_state :: "'c \<Rightarrow> 'c dec_state" where
  "init_state void_ptr =
     \<lparr>records = 0, is_done = False, ctx = void_ptr, calls = [], reads = []\<rparr>"

definition ldb_fetch_recordset ::
  "ldb_externs \<Rightarrow> byte list option \<Rightarrow> ldb_table \<Rightarrow> byte list \<Rightarrow> bool \<Rightarrow> 'c handler \<Rightarrow> 'c
     \<Rightarrow> (fault + 'c dec_state) option" where
  "ldb_fetch_recordset E sector table key skip_subkey ldb_record_handler void_ptr =
     (if sector = None \<and> \<not> ldb_open E table key then Some (Inr (init_state void_ptr))
      else node_loop E ldb_record_handler sector table key skip_subkey
             (word_of_int (key_ln table - LDB_KEY_LN)) 0 (init_state void_ptr))"

text \<open>
  Modelled from the spec: \<^verbatim>\<open>uint32_write\<close> is not in the sources; the spec describes
  the integer codec as writing 4-byte unsigned integers in big-endian order.
\<close>

definition uint32_write :: "32 word \<Rightarrow> byte list" where
  "uint32_write v =
     [ucast (drop_bit 24 v), ucast (drop_bit 16 v), ucast (drop_bit 8 v), ucast v]"

text \<open>
  Lines 145 to 167: the first-record fetch and its handler. The context is the caller's
  record buffer: the handler overwrites its first \<open>4 + datalen\<close> bytes with the length
  and the payload. The payload is read from the node buffer the decoder was given.
\<close>

definition ldb_get_first_record_handler :: "byte list handler" where
  "ldb_get_first_record_handler record a =
     (if a_datalen a \<noteq> 0
      then (let written = uint32_write (a_datalen a) @
                            take (unat (a_datalen a)) (drop (a_data a) (a_node a))
            in (True, written @ drop (length written) record))
      else (False, record))"

definition ldb_get_first_record ::
  "ldb_externs \<Rightarrow> ldb_table \<Rightarrow> byte list \<Rightarrow> byte list \<Rightarrow> (fault + byte list) option" where
  "ldb_get_first_record E table key void_ptr =
     map_option (map_sum id ctx)
       (ldb_fetch_recordset E None table key False ldb_get_first_record_handler void_ptr)"

text \<open>Lines 181 to 196: the existence check and its handler.\<close>

definition ldb_key_exists_handler :: "'c handler" where
  "ldb_key_exists_handler ptr a = (True, ptr)"


section \<open>The dump driver (src/dump.c)\<close>

text \<open>
  The state of \<^verbatim>\<open>ldb_dump\<close>: the context of the handler, and two observation logs
  that the C code does not have: the leading bytes for which a sector was requested, and
  the decoder invocations (sector image, key and \<open>skip_subkey\<close> flag), both in order.
\<close>

record 'c dump_state =
  d_ctx :: 'c
  shards :: "byte list"
  decoded :: "(byte list \<times> byte list \<times> bool) list"

text \<open>
  A \<^verbatim>\<open>for\<close> loop over a fixed range, with a body that may fault or not return.
\<close>

primrec for_each ::
  "('a \<Rightarrow> 's \<Rightarrow> (fault + 's) option) \<Rightarrow> 'a list \<Rightarrow> 's \<Rightarrow> (fault + 's) option" where
  "for_each body [] s = Some (Inr s)"
| "for_each body (x # xs) s =
     (case body x s of
        None \<Rightarrow> None
      | Some (Inl f) \<Rightarrow> Some (Inl f)
      | Some (Inr s') \<Rightarrow> for_each body xs s')"

text \<open>
  Lines 41 to 49: the body of the innermost loop. The decoder runs on the sector image,
  with subkey filtering skipped. The handler (\<^verbatim>\<open>ldb_csvprint\<close> in the C code, which is
  not in the sources) and its context are parameters.
\<close>

definition dump_key ::
  "ldb_externs \<Rightarrow> 'c handler \<Rightarrow> ldb_table \<Rightarrow> byte list \<Rightarrow> byte list \<Rightarrow> 'c dump_state
     \<Rightarrow> (fault + 'c dump_state) option" where
  "dump_key E h table sector k st =
     (if ldb_map_pointer_pos E k \<noteq> 0
      then (case ldb_fetch_recordset E (Some sector) table k True h (d_ctx st) of
              None \<Rightarrow> None
            | Some (Inl f) \<Rightarrow> Some (Inl f)
            | Some (Inr r) \<Rightarrow> Some (Inr (st\<lparr>d_ctx := ctx r,
                                     decoded := decoded st @ [(sector, k, True)]\<rparr>)))
      else Some (Inr st))"

text \<open>Lines 31 to 52: the body of the do-while loop, for one leading byte.\<close>

definition dump_sector ::
  "ldb_externs \<Rightarrow> 'c handler \<Rightarrow> ldb_table \<Rightarrow> byte \<Rightarrow> 'c dump_state
     \<Rightarrow> (fault + 'c dump_state) option" where
  "dump_sector E h table k0 st =
     (let st1 = st\<lparr>shards := shards st @ [k0]\<rparr>
      in case ldb_load_sector E table k0 of
           None \<Rightarrow> Some (Inr st1)
         | Some sector \<Rightarrow>
             for_each (\<lambda>k1.
               for_each (\<lambda>k2.
                 for_each (\<lambda>k3. dump_key E h table sector [k0, of_nat k1, of_nat k2, of_nat k3])
                   [0..<256])
                 [0..<256])
               [0..<256] st1)"

text \<open>
  Lines 30 to 53: \<^verbatim>\<open>do { ... } while (k0++ < 255)\<close> with \<^verbatim>\<open>uint8_t k0\<close>. The
  comparison reads \<open>k0\<close> before the increment.
\<close>

function dump_loop ::
  "ldb_externs \<Rightarrow> 'c handler \<Rightarrow> ldb_table \<Rightarrow> byte \<Rightarrow> 'c dump_state
     \<Rightarrow> (fault + 'c dump_state) option" where
  "dump_loop E h table k0 st =
     (case dump_sector E h table k0 st of
        None \<Rightarrow> None
      | Some (Inl f) \<Rightarrow> Some (Inl f)
      | Some (Inr st') \<Rightarrow>
          if k0 < 255 then dump_loop E h table (k0 + 1) st' else Some (Inr st'))"
  by pat_completeness auto

lemma unat_byte_succ: "(k0 :: byte) < 255 \<Longrightarrow> unat (k0 + 1) = Suc (unat k0)"
  by (simp add: word_less_nat_alt unat_word_ariths)

termination dump_loop
  apply (relation "measure (\<lambda>(E, h, table, k0, st). 255 - unat k0)")
   apply simp
  apply (simp add: unat_byte_succ word_less_nat_alt)
  done

declare dump_loop.simps [simp del]

definition ldb_dump ::
  "ldb_externs \<Rightarrow> 'c handler \<Rightarrow> ldb_table \<Rightarrow> 'c \<Rightarrow> (fault + 'c dump_state) option" where
  "ldb_dump E h table hex_bytes =
     dump_loop E h table 0 \<lparr>d_ctx = hex_bytes, shards = [], decoded = []\<rparr>"

section \<open>The node layout of the spec\<close>

text \<open>
  The spec's layout of a dataset: records packed back to back, each a 2-byte length
  followed by that many bytes of payload. \<open>records_layout node base dataset_size p\<close> lists
  the records from offset \<open>p\<close> of the dataset that starts at \<open>base\<close>, each with the offset
  of its payload in the node and its length; \<open>None\<close> when a length lies outside the buffer.
\<close>

function records_layout :: "byte list \<Rightarrow> nat \<Rightarrow> nat \<Rightarrow> nat \<Rightarrow> (nat \<times> 16 word) list option" where
  "records_layout node base dataset_size p =
     (if p < dataset_size then
        (case uint16_read node (base + p) of
           None \<Rightarrow> None
         | Some record_size \<Rightarrow>
             map_option ((#) (base + p + 2, record_size))
               (records_layout node base dataset_size (p + 2 + unat record_size)))
      else Some [])"
  by pat_completeness auto

termination records_layout
  by (relation "measure (\<lambda>(node, base, dataset_size, p). dataset_size - p)") auto

declare records_layout.simps [simp del]

text \<open>The drop policy of line 111, and the records that pass it.\<close>

definition oversized :: "ldb_externs \<Rightarrow> 16 word \<Rightarrow> bool" where
  "oversized E record_size = (\<not> uint record_size + 32 < LDB_MAX_REC_LN E)"

definition small_records :: "ldb_externs \<Rightarrow> (nat \<times> 16 word) list \<Rightarrow> (nat \<times> 16 word) list" where
  "small_records E rs = filter (\<lambda>r. \<not> oversized E (snd r)) rs"

text \<open>What the decoder does with one record of the layout.\<close>

definition record_args :: "byte list \<Rightarrow> byte list \<Rightarrow> nat \<Rightarrow> 8 word \<Rightarrow> nat \<times> 16 word \<Rightarrow> handler_args" where
  "record_args key node subkey subkey_ln r =
     \<lparr>a_key = key, a_subkey = Some subkey, a_subkey_ln = uint subkey_ln, a_node = node,
      a_data = fst r, a_datalen = ucast (snd r), a_iteration = 0\<rparr>"

definition record_step ::
  "ldb_externs \<Rightarrow> 'c handler \<Rightarrow> byte list \<Rightarrow> byte list \<Rightarrow> nat \<Rightarrow> 8 word
     \<Rightarrow> 'c dec_state \<Rightarrow> nat \<times> 16 word \<Rightarrow> 'c dec_state" where
  "record_step E h key node subkey subkey_ln st r =
     (let st1 = log_read (fst r - 2) 2 st
      in if oversized E (snd r) then st1
         else invoke h (record_args key node subkey subkey_ln r) st1)"

text \<open>
  Modelled from the spec: the node validator \<^verbatim>\<open>ldb_validate_node\<close> is not in the
  sources. The spec's invariant for a variable-length node is that every prefix-declared
  length is consistent with the remaining buffer length: each record lies inside its
  dataset, and each group (subkey, 2-byte dataset size, dataset) inside the node size.
\<close>

function dataset_consistent :: "byte list \<Rightarrow> nat \<Rightarrow> nat \<Rightarrow> nat \<Rightarrow> bool" where
  "dataset_consistent node base dataset_size p =
     (if p < dataset_size then
        (case uint16_read node (base + p) of
           None \<Rightarrow> False
         | Some record_size \<Rightarrow>
             p + 2 + unat record_size \<le> dataset_size \<and>
             dataset_consistent node base dataset_size (p + 2 + unat record_size))
      else True)"
  by pat_completeness auto

termination dataset_consistent
  by (relation "measure (\<lambda>(node, base, dataset_size, p). dataset_size - p)") auto

declare dataset_consistent.simps [simp del]

function node_consistent :: "byte list \<Rightarrow> nat \<Rightarrow> nat \<Rightarrow> nat \<Rightarrow> bool" where
  "node_consistent node node_size subkey_ln p =
     (if p < node_size then
        (case uint16_read node (p + subkey_ln) of
           None \<Rightarrow> False
         | Some dataset_size \<Rightarrow>
             p + subkey_ln + 2 + unat dataset_size \<le> node_size \<and>
             dataset_consistent node (p + subkey_ln + 2) (unat dataset_size) 0 \<and>
             node_consistent node node_size subkey_ln (p + subkey_ln + 2 + unat dataset_size))
      else True)"
  by pat_completeness auto

termination node_consistent
  by (relation "measure (\<lambda>(node, node_size, subkey_ln, p). node_size - p)") auto

declare node_consistent.simps [simp del]

section \<open>Observations on the invocation log\<close>

text \<open>
  The log entry of an invocation, the payload range an entry was given, and the property
  of an entry that it was made for the group whose subkey is at offset \<open>subkey\<close>.
\<close>

definition invoked :: "'c handler \<Rightarrow> handler_args \<Rightarrow> 'c dec_state \<Rightarrow> handler_args \<times> bool" where
  "invoked h a st =
     (a\<lparr>a_iteration := sint (records st)\<rparr>, fst (h (ctx st) (a\<lparr>a_iteration := sint (records st)\<rparr>)))"

definition call_range :: "handler_args \<times> bool \<Rightarrow> nat \<times> 32 word" where
  "call_range c = (a_data (fst c), a_datalen (fst c))"

definition from_group :: "byte list \<Rightarrow> byte list \<Rightarrow> nat \<Rightarrow> 8 word \<Rightarrow> handler_args \<times> bool \<Rightarrow> bool" where
  "from_group key node subkey subkey_ln c =
     (a_key (fst c) = key \<and> a_subkey (fst c) = Some subkey \<and>
      a_subkey_ln (fst c) = uint subkey_ln \<and> a_node (fst c) = node)"

text \<open>
  An example: a table with keys of 5 bytes (a subkey of 1 byte) and a maximum record
  length of 40. The chain has three nodes. The first holds two groups: subkey 1 with
  records of 2, 8 and 1 bytes (the one of 8 bytes is oversized: 8 + 32 is not below 40),
  and subkey 2 with one record of 1 byte. The second declares a dataset of 9 bytes but
  has only 3, and the validator of the example, which is the consistency check of the
  spec, rejects it. The third holds one group, subkey 2, with one record of 2 bytes.
\<close>

definition ex_node_a :: "byte list" where
  "ex_node_a = [1, 0, 17, 0, 2, 170, 187, 0, 8, 1, 2, 3, 4, 5, 6, 7, 8, 0, 1, 204,
                2, 0, 3, 0, 1, 221]"

definition ex_node_b :: "byte list" where
  "ex_node_b = [2, 0, 9, 0, 1, 238]"

definition ex_node_c :: "byte list" where
  "ex_node_c = [2, 0, 4, 0, 2, 17, 34]"

definition ex_externs :: ldb_externs where
  "ex_externs =
     \<lparr>LDB_MAX_REC_LN = 40,
      ldb_open = (\<lambda>table key. True),
      ldb_node_read = (\<lambda>sector table key cursor.
         if cursor = 0 then (7, 26, ex_node_a)
         else if cursor = 7 then (9, 6, ex_node_b)
         else if cursor = 9 then (0, 7, ex_node_c)
         else (0, 0, [])),
      ldb_validate_node = (\<lambda>node node_size subkey_ln.
         node_consistent node (unat node_size) (unat subkey_ln) 0),
      ldb_load_sector = (\<lambda>table k0. if k0 = 0 then Some [] else None),
      ldb_map_pointer_pos = (\<lambda>k. if k = [0, 0, 0, 1] \<or> k = [0, 255, 255, 255] then 1 else 0)\<rparr>"

definition ex_table :: ldb_table where
  "ex_table = \<lparr>key_ln = 5, rec_ln = 0\<rparr>"

text \<open>A handler that never stops and leaves its context alone.\<close>

definition ex_continue :: "unit handler" where
  "ex_continue ptr a = (False, ptr)"

text \<open>The state after the records of the first dataset of the first node of the example.\<close>

definition ex_after_dataset :: "unit dec_state" where
  "ex_after_dataset =
     \<lparr>records = 2, is_done = False, ctx = (),
      calls = [(\<lparr>a_key = [9, 9, 9, 9, 1], a_subkey = Some 0, a_subkey_ln = 1,
                 a_node = ex_node_a, a_data = 5, a_datalen = 2, a_iteration = 0\<rparr>, False),
               (\<lparr>a_key = [9, 9, 9, 9, 1], a_subkey = Some 0, a_subkey_ln = 1,
                 a_node = ex_node_a, a_data = 19, a_datalen = 1, a_iteration = 1\<rparr>, False)],
      reads = [(3, 2), (7, 2), (17, 2)]\<rparr>"

section \<open>The records of a dataset\<close>

lemma record_loop_layout:
  "record_loop E h key node subkey subkey_ln node_ptr dataset_size dataset_ptr st =
     (case records_layout node (unat node_ptr) (unat dataset_size) (unat dataset_ptr) of
        None \<Rightarrow> Inl OutOfBounds
      | Some rs \<Rightarrow> Inr (foldl (record_step E h key node subkey subkey_ln) st rs))"
proof (induction E h key node subkey subkey_ln node_ptr dataset_size dataset_ptr st
        rule: record_loop.induct)
  case (1 E h key node subkey subkey_ln node_ptr dataset_size dataset_ptr st)
  show ?case
  proof (cases "dataset_ptr < ucast dataset_size")
    case False
    then have "\<not> unat dataset_ptr < unat dataset_size"
      by (simp add: word_less_nat_alt unat_ucast_16_32)
    with False show ?thesis
      by (subst record_loop.simps, subst records_layout.simps) simp
  next
    case True
    then have lt: "unat dataset_ptr < unat dataset_size"
      by (simp add: word_less_nat_alt unat_ucast_16_32)
    have p1: "unat (dataset_ptr + 2) = unat dataset_ptr + 2"
      using dataset_ptr_advance [OF True, of 0] by simp
    show ?thesis
    proof (cases "uint16_read node (unat node_ptr + unat dataset_ptr)")
      case None
      with True lt show ?thesis
        by (subst record_loop.simps, subst records_layout.simps) simp
    next
      case (Some record_size)
      note IH = "1.IH" [OF True Some refl refl refl]
      show ?thesis
        apply (subst record_loop.simps)
        apply (subst records_layout.simps)
        using True lt Some
        apply (simp add: Let_def IH dataset_ptr_advance p1 record_step_def oversized_def
            record_args_def split: option.splits)
        done
    qed
  qed
qed

lemma calls_log_read [simp]: "calls (log_read off n st) = calls st"
  and records_log_read [simp]: "records (log_read off n st) = records st"
  and is_done_log_read [simp]: "is_done (log_read off n st) = is_done st"
  and ctx_log_read [simp]: "ctx (log_read off n st) = ctx st"
  and reads_log_read [simp]: "reads (log_read off n st) = reads st @ [(off, n)]"
  by (simp_all add: log_read_def)

lemma calls_invoke [simp]: "calls (invoke h a st) = calls st @ [invoked h a st]"
  and records_invoke [simp]: "records (invoke h a st) = records st + 1"
  and is_done_invoke [simp]: "is_done (invoke h a st) = snd (invoked h a st)"
  and reads_invoke [simp]: "reads (invoke h a st) = reads st"
  by (simp_all add: invoke_def invoked_def Let_def)

lemma fst_invoked [simp]:
  "a_key (fst (invoked h a st)) = a_key a"
  "a_subkey (fst (invoked h a st)) = a_subkey a"
  "a_subkey_ln (fst (invoked h a st)) = a_subkey_ln a"
  "a_node (fst (invoked h a st)) = a_node a"
  "a_data (fst (invoked h a st)) = a_data a"
  "a_datalen (fst (invoked h a st)) = a_datalen a"
  by (simp_all add: invoked_def)

lemma record_step_oversized:
  "oversized E (snd r) \<Longrightarrow>
     record_step E h key node subkey subkey_ln st r = log_read (fst r - 2) 2 st"
  by (simp add: record_step_def)

lemma record_step_small:
  "\<not> oversized E (snd r) \<Longrightarrow>
     record_step E h key node subkey subkey_ln st r =
       invoke h (record_args key node subkey subkey_ln r) (log_read (fst r - 2) 2 st)"
  by (simp add: record_step_def)

lemma foldl_record_step:
  "\<exists>cs. calls (foldl (record_step E h key node subkey subkey_ln) st rs) = calls st @ cs \<and>
        map call_range cs = map (\<lambda>r. (fst r, ucast (snd r))) (small_records E rs) \<and>
        (\<forall>c \<in> set cs. from_group key node subkey subkey_ln c) \<and>
        records (foldl (record_step E h key node subkey subkey_ln) st rs) =
          records st + of_nat (length cs) \<and>
        is_done (foldl (record_step E h key node subkey subkey_ln) st rs) =
          (if cs = [] then is_done st else snd (last cs)) \<and>
        (cs = [] \<longrightarrow> ctx (foldl (record_step E h key node subkey subkey_ln) st rs) = ctx st) \<and>
        reads (foldl (record_step E h key node subkey subkey_ln) st rs) =
          reads st @ map (\<lambda>r. (fst r - 2, 2)) rs"
proof (induction rs arbitrary: st)
  case Nil
  show ?case by (simp add: small_records_def)
next
  case (Cons r rs)
  let ?f = "record_step E h key node subkey subkey_ln"
  obtain cs where cs: "calls (foldl ?f (?f st r) rs) = calls (?f st r) @ cs"
    "map call_range cs = map (\<lambda>r. (fst r, ucast (snd r))) (small_records E rs)"
    "\<forall>c \<in> set cs. from_group key node subkey subkey_ln c"
    "records (foldl ?f (?f st r) rs) = records (?f st r) + of_nat (length cs)"
    "is_done (foldl ?f (?f st r) rs) = (if cs = [] then is_done (?f st r) else snd (last cs))"
    "cs = [] \<longrightarrow> ctx (foldl ?f (?f st r) rs) = ctx (?f st r)"
    "reads (foldl ?f (?f st r) rs) = reads (?f st r) @ map (\<lambda>r. (fst r - 2, 2)) rs"
    using Cons.IH [of "?f st r"] by blast
  show ?case
  proof (cases "oversized E (snd r)")
    case True
    have "small_records E (r # rs) = small_records E rs"
      using True by (simp add: small_records_def)
    with cs True show ?thesis
      by (intro exI [of _ cs]) (simp add: record_step_oversized)
  next
    case False
    let ?c = "invoked h (record_args key node subkey subkey_ln r) (log_read (fst r - 2) 2 st)"
    have sm: "small_records E (r # rs) = r # small_records E rs"
      using False by (simp add: small_records_def)
    have c0: "call_range ?c = (fst r, ucast (snd r))" "from_group key node subkey subkey_ln ?c"
      by (simp_all add: call_range_def from_group_def record_args_def)
    from cs False c0 sm show ?thesis
      by (intro exI [of _ "?c # cs"]) (simp add: record_step_small)
  qed
qed


lemma records_layout_offsets:
  "records_layout node base dataset_size p = Some rs \<Longrightarrow>
     (\<forall>r \<in> set rs. base + p + 2 \<le> fst r) \<and> distinct (map fst rs) \<and>
     length rs \<le> dataset_size - p"
proof (induction node base dataset_size p arbitrary: rs rule: records_layout.induct)
  case (1 node base dataset_size p)
  show ?case
  proof (cases "p < dataset_size")
    case False
    with "1.prems" show ?thesis
      by (subst (asm) records_layout.simps) simp
  next
    case True
    from "1.prems" True obtain record_size rs' where
      rd: "uint16_read node (base + p) = Some record_size" and
      rest: "records_layout node base dataset_size (p + 2 + unat record_size) = Some rs'" and
      rs: "rs = (base + p + 2, record_size) # rs'"
      by (subst (asm) records_layout.simps) (auto split: option.splits)
    from "1.IH" [OF True rd rest]
    have ih: "\<forall>r \<in> set rs'. base + (p + 2 + unat record_size) + 2 \<le> fst r"
      "distinct (map fst rs')" "length rs' \<le> dataset_size - (p + 2 + unat record_size)"
      by simp_all
    from ih(1) have "base + p + 2 \<notin> fst ` set rs'"
      by fastforce
    with ih True show ?thesis
      unfolding rs by fastforce
  qed
qed

text \<open>
  Claim C3. In a matched dataset of a variable-length table, the handler is invoked
  exactly for the records of the layout whose length plus 32 is below the maximum
  permitted record length, in order, each with the offset and length of its own payload.
  A record whose length plus 32 reaches the maximum is not passed to the handler and not
  counted, and the records after it are still decoded at their own offsets.
\<close>

theorem c3_oversized_record_skipped:
  assumes "record_loop E h key node subkey subkey_ln node_ptr dataset_size 0 st = Inr st'"
  shows "\<exists>rs cs. records_layout node (unat node_ptr) (unat dataset_size) 0 = Some rs \<and>
           calls st' = calls st @ cs \<and>
           map call_range cs =
             map (\<lambda>r. (fst r, ucast (snd r)))
               (filter (\<lambda>r. uint (snd r) + 32 < LDB_MAX_REC_LN E) rs) \<and>
           records st' = records st + of_nat (length cs) \<and>
           (\<forall>r \<in> set rs. uint (snd r) + 32 \<ge> LDB_MAX_REC_LN E \<longrightarrow>
              fst r \<notin> set (map (\<lambda>c. a_data (fst c)) cs))"
proof -
  let ?f = "record_step E h key node subkey subkey_ln"
  from assms obtain rs where
    lay: "records_layout node (unat node_ptr) (unat dataset_size) 0 = Some rs" and
    st': "st' = foldl ?f st rs"
    by (auto simp: record_loop_layout split: option.splits)
  from foldl_record_step [of E h key node subkey subkey_ln st rs] obtain cs where
    cs: "calls st' = calls st @ cs"
      "map call_range cs = map (\<lambda>r. (fst r, ucast (snd r))) (small_records E rs)"
      "records st' = records st + of_nat (length cs)"
    unfolding st' by blast
  have filt: "small_records E rs = filter (\<lambda>r. uint (snd r) + 32 < LDB_MAX_REC_LN E) rs"
    by (simp add: small_records_def oversized_def)
  have dist: "distinct (map fst rs)"
    using records_layout_offsets [OF lay] by simp
  have data: "map (\<lambda>c. a_data (fst c)) cs = map fst (small_records E rs)"
  proof -
    have "map (\<lambda>c. a_data (fst c)) cs = map fst (map call_range cs)"
      by (simp add: call_range_def comp_def)
    then show ?thesis by (simp add: cs(2) comp_def)
  qed
  have skip: "fst r \<notin> set (map (\<lambda>c. a_data (fst c)) cs)"
    if r: "r \<in> set rs" and big: "uint (snd r) + 32 \<ge> LDB_MAX_REC_LN E" for r
  proof
    assume "fst r \<in> set (map (\<lambda>c. a_data (fst c)) cs)"
    then obtain r' where r': "r' \<in> set rs" "\<not> oversized E (snd r')" "fst r' = fst r"
      unfolding data by (auto simp: small_records_def)
    from dist r r'(1,3) have "r' = r"
      by (meson distinct_map inj_on_def)
    with r'(2) big show False
      by (simp add: oversized_def)
  qed
  from lay cs skip show ?thesis
    unfolding filt by blast
qed

lemma ex_record_loop:
  "record_loop ex_externs ex_continue [9, 9, 9, 9, 1] ex_node_a 0 1 3 17 0 (init_state ()) =
     Inr ex_after_dataset"
  by code_simp

lemma ex_records_layout:
  "records_layout ex_node_a 3 17 0 =
     Some [(5, 2), (9, 8), (19, 1)]"
  by code_simp

theorem c3_oversized_record_skipped_witness:
  "record_loop ex_externs ex_continue [9, 9, 9, 9, 1] ex_node_a 0 1 3 17 0 (init_state ()) =
     Inr ex_after_dataset \<and>
   records_layout ex_node_a 3 17 0 =
     Some [(5, 2), (9, 8), (19, 1)] \<and>
   map call_range (calls ex_after_dataset) = [(5, 2), (19, 1)] \<and>
   records ex_after_dataset = 2 \<and>
   9 \<notin> set (map (\<lambda>c. a_data (fst c)) (calls ex_after_dataset))"
proof -
  from c3_oversized_record_skipped [OF ex_record_loop] obtain rs cs where
    a: "records_layout ex_node_a (unat (3 :: 32 word)) (unat (17 :: 16 word)) 0 = Some rs"
      "calls ex_after_dataset = calls (init_state ()) @ cs"
      "map call_range cs = map (\<lambda>r. (fst r, ucast (snd r)))
         (filter (\<lambda>r. uint (snd r) + 32 < LDB_MAX_REC_LN ex_externs) rs)"
      "records ex_after_dataset = records (init_state ()) + of_nat (length cs)"
      "\<forall>r \<in> set rs. uint (snd r) + 32 \<ge> LDB_MAX_REC_LN ex_externs \<longrightarrow>
          fst r \<notin> set (map (\<lambda>c. a_data (fst c)) cs)"
    by blast
  from a(1) have rs: "rs = [(5, 2), (9, 8), (19, 1)]"
    by (simp add: ex_records_layout)
  have cs: "cs = calls ex_after_dataset"
    using a(2) by (simp add: init_state_def)
  have "map call_range (calls ex_after_dataset) = [(5, 2), (19, 1)]"
    using a(3) unfolding rs cs by (simp add: ex_externs_def)
  moreover have "records ex_after_dataset = 2"
    using a(4) arg_cong [OF \<open>map call_range (calls ex_after_dataset) = [(5, 2), (19, 1)]\<close>, of length]
    unfolding cs by (simp add: init_state_def)
  moreover have "9 \<notin> set (map (\<lambda>c. a_data (fst c)) (calls ex_after_dataset))"
    using a(5) unfolding rs cs by (simp add: ex_externs_def)
  ultimately show ?thesis
    using ex_record_loop ex_records_layout by simp
qed

section \<open>Partial correctness of the two outer loops\<close>

text \<open>
  Induction rules for a run of the group loop and of the node loop that returns: one case
  for each way an iteration can end.
\<close>

lemma dataset_loop_induct [consumes 1, case_names exit fault step]:
  assumes run: "dataset_loop E h key skip_subkey node node_size subkey_ln node_ptr st = Some r"
    and exit: "\<And>node_ptr st. \<not> (node_ptr < node_size \<and> \<not> is_done st) \<Longrightarrow> P node_ptr st (Inr st)"
    and fault: "\<And>node_ptr st f. node_ptr < node_size \<Longrightarrow> \<not> is_done st \<Longrightarrow>
        dataset_body E h key skip_subkey node subkey_ln node_ptr st = Inl f \<Longrightarrow>
        P node_ptr st (Inl f)"
    and step: "\<And>node_ptr st node_ptr' st' r. node_ptr < node_size \<Longrightarrow> \<not> is_done st \<Longrightarrow>
        dataset_body E h key skip_subkey node subkey_ln node_ptr st = Inr (node_ptr', st') \<Longrightarrow>
        P node_ptr' st' r \<Longrightarrow> P node_ptr st r"
  shows "P node_ptr st r"
  using assms(2-)
proof (induction E h key skip_subkey node node_size subkey_ln node_ptr st r
    rule: dataset_loop.raw_induct)
  case (1 loop E h key skip_subkey node node_size subkey_ln node_ptr st r)
  show ?case
  proof (cases "node_ptr < node_size \<and> \<not> is_done st")
    case False
    with "1.hyps" have "r = Inr st" by simp
    with False "1.prems"(1) show ?thesis by blast
  next
    case True
    show ?thesis
    proof (cases "dataset_body E h key skip_subkey node subkey_ln node_ptr st")
      case (Inl f)
      with True "1.hyps" have "r = Inl f" by simp
      with True Inl "1.prems"(2) show ?thesis by blast
    next
      case (Inr b)
      obtain node_ptr' st' where b: "b = (node_ptr', st')" by (cases b)
      from True Inr b "1.hyps"
      have "loop E h key skip_subkey node node_size subkey_ln node_ptr' st' = Some r"
        by simp
      from "1.IH" [OF this "1.prems"]
      have "P node_ptr' st' r" .
      with True Inr b "1.prems"(3) show ?thesis by blast
    qed
  qed
qed (rule run)

lemma node_loop_induct [consumes 1, case_names last fault stop more]:
  assumes run: "node_loop E h sector table key skip_subkey subkey_ln nxt st = Some r"
    and last: "\<And>nxt st nxt' node_size node. 
        ldb_node_read E sector table key nxt = (nxt', node_size, node) \<Longrightarrow>
        node_size = 0 \<and> nxt' = 0 \<Longrightarrow> P nxt st (Inr st)"
    and fault: "\<And>nxt st nxt' node_size node f.
        ldb_node_read E sector table key nxt = (nxt', node_size, node) \<Longrightarrow>
        \<not> (node_size = 0 \<and> nxt' = 0) \<Longrightarrow>
        node_body E h table key skip_subkey subkey_ln node node_size st = Some (Inl f) \<Longrightarrow>
        P nxt st (Inl f)"
    and stop: "\<And>nxt st nxt' node_size node st'.
        ldb_node_read E sector table key nxt = (nxt', node_size, node) \<Longrightarrow>
        \<not> (node_size = 0 \<and> nxt' = 0) \<Longrightarrow>
        node_body E h table key skip_subkey subkey_ln node node_size st = Some (Inr st') \<Longrightarrow>
        \<not> (nxt' \<noteq> 0 \<and> \<not> is_done st') \<Longrightarrow> P nxt st (Inr st')"
    and more: "\<And>nxt st nxt' node_size node st' r.
        ldb_node_read E sector table key nxt = (nxt', node_size, node) \<Longrightarrow>
        \<not> (node_size = 0 \<and> nxt' = 0) \<Longrightarrow>
        node_body E h table key skip_subkey subkey_ln node node_size st = Some (Inr st') \<Longrightarrow>
        nxt' \<noteq> 0 \<Longrightarrow> \<not> is_done st' \<Longrightarrow> P nxt' st' r \<Longrightarrow> P nxt st r"
  shows "P nxt st r"
  using assms(2-)
proof (induction E h sector table key skip_subkey subkey_ln nxt st r rule: node_loop.raw_induct)
  case (1 loop E h sector table key skip_subkey subkey_ln nxt st r)
  obtain nxt' node_size node where rd:
    "ldb_node_read E sector table key nxt = (nxt', node_size, node)"
    by (cases "ldb_node_read E sector table key nxt")
  show ?case
  proof (cases "node_size = 0 \<and> nxt' = 0")
    case True
    with rd "1.hyps" have "r = Inr st" by simp
    with True rd "1.prems"(1) show ?thesis by blast
  next
    case False
    with rd "1.hyps" obtain b where
      nb: "node_body E h table key skip_subkey subkey_ln node node_size st = Some b"
      by (cases "node_body E h table key skip_subkey subkey_ln node node_size st") auto
    show ?thesis
    proof (cases b)
      case (Inl f)
      with False rd nb "1.hyps" have "r = Inl f" by (auto split: if_splits)
      with False rd nb Inl "1.prems"(2) show ?thesis by blast
    next
      case (Inr st')
      show ?thesis
      proof (cases "nxt' \<noteq> 0 \<and> \<not> is_done st'")
        case F2: False
        with False rd nb Inr "1.hyps" have "r = Inr st'" by (auto split: if_splits)
        with False F2 rd nb Inr "1.prems"(3) show ?thesis by blast
      next
        case True
        with False rd nb Inr "1.hyps"
        have "loop E h sector table key skip_subkey subkey_ln nxt' st' = Some r"
          by (auto split: if_splits)
        from "1.IH" [OF this "1.prems"]
        have "P nxt' st' r" .
        with False True rd nb Inr "1.prems"(4) show ?thesis by blast
      qed
    qed
  qed
qed (rule run)

section \<open>One dataset group, and the counter\<close>

text \<open>
  The state on entry to the records of a group: the reads of the dataset size and, when
  the subkey is compared, of the subkey are logged.
\<close>

definition group_entry :: "bool \<Rightarrow> 8 word \<Rightarrow> 32 word \<Rightarrow> 'c dec_state \<Rightarrow> 'c dec_state" where
  "group_entry skip_subkey subkey_ln node_ptr st =
     (let st1 = log_read (unat (node_ptr + ucast subkey_ln)) 2 st
      in if subkey_compared skip_subkey subkey_ln
         then log_read (unat node_ptr) (unat subkey_ln) st1 else st1)"

text \<open>
  A later state extends an earlier one when the log of invocations has only grown and the
  counter has grown by the number of new invocations.
\<close>

definition extends :: "'c dec_state \<Rightarrow> 'c dec_state \<Rightarrow> bool" where
  "extends st st' =
     (\<exists>cs. calls st' = calls st @ cs \<and> records st' = records st + of_nat (length cs))"

lemma dataset_body_Inr:
  assumes "dataset_body E h key skip_subkey node subkey_ln node_ptr st = Inr (node_ptr', st')"
  shows "\<exists>dataset_size m.
           uint16_read node (unat (node_ptr + ucast subkey_ln)) = Some dataset_size \<and>
           key_matched skip_subkey subkey_ln node (unat node_ptr) key = Some m \<and>
           node_ptr' = node_ptr + ucast subkey_ln + 2 + ucast dataset_size \<and>
           (if m then record_loop E h key node (unat node_ptr) subkey_ln
                        (node_ptr + ucast subkey_ln + 2) dataset_size 0
                        (group_entry skip_subkey subkey_ln node_ptr st) = Inr st'
            else st' = group_entry skip_subkey subkey_ln node_ptr st)"
  using assms
  by (auto simp: dataset_body_def group_entry_def Let_def
      split: option.splits sum.splits if_splits)

lemma group_entry_fields [simp]:
  "calls (group_entry skip_subkey subkey_ln node_ptr st) = calls st"
  "records (group_entry skip_subkey subkey_ln node_ptr st) = records st"
  "is_done (group_entry skip_subkey subkey_ln node_ptr st) = is_done st"
  "ctx (group_entry skip_subkey subkey_ln node_ptr st) = ctx st"
  by (simp_all add: group_entry_def Let_def)

lemma key_matched_True:
  "key_matched skip_subkey subkey_ln node subkey key = Some True \<Longrightarrow>
     subkey_compared skip_subkey subkey_ln \<Longrightarrow>
     take (unat subkey_ln) (drop subkey node) = take (unat subkey_ln) (drop 4 key)"
  by (auto simp: key_matched_def memcmp_eq_def split: if_splits)

text \<open>What one group contributes.\<close>

lemma dataset_body_calls:
  assumes "dataset_body E h key skip_subkey node subkey_ln node_ptr st = Inr (node_ptr', st')"
  shows "\<exists>cs. calls st' = calls st @ cs \<and>
           records st' = records st + of_nat (length cs) \<and>
           is_done st' = (if cs = [] then is_done st else snd (last cs)) \<and>
           (cs = [] \<longrightarrow> ctx st' = ctx st) \<and>
           length cs \<le> 65535 \<and>
           (\<forall>c \<in> set cs. from_group key node (unat node_ptr) subkey_ln c) \<and>
           (cs \<noteq> [] \<longrightarrow> key_matched skip_subkey subkey_ln node (unat node_ptr) key = Some True)"
proof -
  from dataset_body_Inr [OF assms] obtain dataset_size m where
    m: "key_matched skip_subkey subkey_ln node (unat node_ptr) key = Some m" and
    r: "if m then record_loop E h key node (unat node_ptr) subkey_ln
                        (node_ptr + ucast subkey_ln + 2) dataset_size 0
                        (group_entry skip_subkey subkey_ln node_ptr st) = Inr st'
            else st' = group_entry skip_subkey subkey_ln node_ptr st"
    by blast
  show ?thesis
  proof (cases m)
    case False
    with r show ?thesis by (intro exI [of _ "[]"]) simp
  next
    case True
    let ?f = "record_step E h key node (unat node_ptr) subkey_ln"
    let ?st = "group_entry skip_subkey subkey_ln node_ptr st"
    from True r obtain rs where
      lay: "records_layout node (unat (node_ptr + ucast subkey_ln + 2)) (unat dataset_size) 0
              = Some rs" and
      st': "st' = foldl ?f ?st rs"
      by (auto simp: record_loop_layout split: option.splits)
    from foldl_record_step [of E h key node "unat node_ptr" subkey_ln ?st rs]
    obtain cs where cs0: "calls st' = calls ?st @ cs"
      "map call_range cs = map (\<lambda>r. (fst r, ucast (snd r))) (small_records E rs)"
      "\<forall>c \<in> set cs. from_group key node (unat node_ptr) subkey_ln c"
      "records st' = records ?st + of_nat (length cs)"
      "is_done st' = (if cs = [] then is_done ?st else snd (last cs))"
      "cs = [] \<longrightarrow> ctx st' = ctx ?st"
      unfolding st' by blast
    have cs: "calls st' = calls st @ cs"
      "map call_range cs = map (\<lambda>r. (fst r, ucast (snd r))) (small_records E rs)"
      "\<forall>c \<in> set cs. from_group key node (unat node_ptr) subkey_ln c"
      "records st' = records st + of_nat (length cs)"
      "is_done st' = (if cs = [] then is_done st else snd (last cs))"
      "cs = [] \<longrightarrow> ctx st' = ctx st"
      using cs0 by simp_all
    have "length cs = length (small_records E rs)"
      using arg_cong [OF cs(2), of length] by simp
    also have "\<dots> \<le> length rs"
      by (simp add: small_records_def)
    also have "\<dots> \<le> unat dataset_size"
      using records_layout_offsets [OF lay] by simp
    also have "\<dots> \<le> 65535"
      using unat16_lt [of dataset_size] by simp
    finally have "length cs \<le> 65535" .
    with cs m True show ?thesis
      by (intro exI [of _ cs]) simp
  qed
qed

lemma extends_refl [simp]: "extends st st"
  by (simp add: extends_def)

lemma extends_trans: "extends a b \<Longrightarrow> extends b c \<Longrightarrow> extends a c"
  by (auto simp: extends_def)

lemma extends_invoke [simp]: "extends st (invoke h a st)"
  by (simp add: extends_def)

lemma dataset_body_extends:
  "dataset_body E h key skip_subkey node subkey_ln node_ptr st = Inr (node_ptr', st') \<Longrightarrow>
     extends st st'"
  using dataset_body_calls [of E h key skip_subkey node subkey_ln node_ptr st node_ptr' st']
  by (auto simp: extends_def)

lemma dataset_loop_extends:
  assumes "dataset_loop E h key skip_subkey node node_size subkey_ln node_ptr st = Some (Inr st')"
  shows "extends st st'"
proof -
  have "\<forall>st'. r = Inr st' \<longrightarrow> extends st st'"
    if "dataset_loop E h key skip_subkey node node_size subkey_ln node_ptr st = Some r" for r
    using that
  proof (induction rule: dataset_loop_induct)
    case (exit node_ptr st)
    show ?case by simp
  next
    case (fault node_ptr st f)
    show ?case by simp
  next
    case (step node_ptr st node_ptr' st' r)
    then show ?case
      by (blast intro: extends_trans dataset_body_extends)
  qed
  with assms show ?thesis by blast
qed

lemma node_body_extends:
  "node_body E h table key skip_subkey subkey_ln node node_size st = Some (Inr st') \<Longrightarrow>
     extends st st'"
  by (auto simp: node_body_def dataset_loop_extends split: if_splits)

lemma node_loop_extends:
  assumes "node_loop E h sector table key skip_subkey subkey_ln nxt st = Some (Inr st')"
  shows "extends st st'"
proof -
  have "\<forall>st'. r = Inr st' \<longrightarrow> extends st st'"
    if "node_loop E h sector table key skip_subkey subkey_ln nxt st = Some r" for r
    using that
  proof (induction rule: node_loop_induct)
    case (last nxt st nxt' node_size node)
    show ?case by simp
  next
    case (fault nxt st nxt' node_size node f)
    show ?case by simp
  next
    case (stop nxt st nxt' node_size node st')
    then show ?case by (simp add: node_body_extends)
  next
    case (more nxt st nxt' node_size node st' r)
    then show ?case
      by (blast intro: extends_trans node_body_extends)
  qed
  with assms show ?thesis by blast
qed

text \<open>
  Claim C2, as amended. The value returned by the decoder is the number of handler
  invocations of the call, taken modulo \<open>2 ^ 32\<close> since the counter is a
  \<^verbatim>\<open>uint32_t\<close>: every invocation is counted whatever the handler returned, and nothing
  else is. It is the exact number when the handler was invoked fewer than \<open>2 ^ 32\<close>
  times.
\<close>

theorem c2_count_is_invocations_mod:
  assumes "ldb_fetch_recordset E sector table key skip_subkey h void_ptr = Some (Inr st)"
  shows "records st = of_nat (length (calls st)) \<and>
         unat (records st) = length (calls st) mod 2 ^ 32 \<and>
         (length (calls st) < 2 ^ 32 \<longrightarrow> unat (records st) = length (calls st))"
proof -
  have "extends (init_state void_ptr) st"
    using assms
    by (auto simp: ldb_fetch_recordset_def node_loop_extends split: if_splits)
  then have "records st = of_nat (length (calls st))"
    by (auto simp: extends_def init_state_def)
  then show ?thesis
    by (simp add: unat_of_nat)
qed

section \<open>The handler drives the stop flag\<close>

text \<open>
  Replaying a log of invocations on a handler: from a context and a stop flag, every
  logged invocation is handed to the handler with the context as the previous one left
  it, the flag the handler returns must be the logged one, and it becomes the stop flag.
  The result is the context and flag after the last invocation.
\<close>

primrec replay :: "'c handler \<Rightarrow> (handler_args \<times> bool) list \<Rightarrow> 'c \<times> bool \<Rightarrow> ('c \<times> bool) option" where
  "replay h [] s = Some s"
| "replay h (c # cs) s =
     (let r = h (fst s) (fst c)
      in if fst r = snd c then replay h cs (snd r, fst r) else None)"

text \<open>
  From \<open>st\<close> to \<open>st'\<close> the log has grown by invocations of the handler \<open>h\<close>, and the
  context and the stop flag of \<open>st'\<close> are what this handler made of those of \<open>st\<close>.
\<close>

definition driven :: "'c handler \<Rightarrow> 'c dec_state \<Rightarrow> 'c dec_state \<Rightarrow> bool" where
  "driven h st st' =
     (\<exists>cs. calls st' = calls st @ cs \<and>
        replay h cs (ctx st, is_done st) = Some (ctx st', is_done st'))"

lemma replay_append:
  "replay h (cs @ cs') s = (case replay h cs s of None \<Rightarrow> None | Some s' \<Rightarrow> replay h cs' s')"
  by (induction cs arbitrary: s) (simp_all add: Let_def)

lemma driven_refl [simp]: "driven h st st"
  by (simp add: driven_def)

lemma driven_trans:
  assumes "driven h a b" and "driven h b c"
  shows "driven h a c"
proof -
  from assms(1) obtain cs where 1: "calls b = calls a @ cs"
    "replay h cs (ctx a, is_done a) = Some (ctx b, is_done b)"
    unfolding driven_def by blast
  from assms(2) obtain cs' where 2: "calls c = calls b @ cs'"
    "replay h cs' (ctx b, is_done b) = Some (ctx c, is_done c)"
    unfolding driven_def by blast
  from 1 2 show ?thesis
    unfolding driven_def by (intro exI [of _ "cs @ cs'"]) (simp add: replay_append)
qed

lemma driven_log_read [simp]: "driven h st (log_read off n st)"
  by (simp add: driven_def)

lemma driven_invoke [simp]: "driven h st (invoke h a st)"
  unfolding driven_def
  by (intro exI [of _ "[invoked h a st]"]) (simp add: invoke_def invoked_def Let_def)

lemma driven_group_entry [simp]: "driven h st (group_entry skip_subkey subkey_ln node_ptr st)"
  by (simp add: driven_def)

lemma driven_record_step: "driven h st (record_step E h key node subkey subkey_ln st r)"
  unfolding record_step_def Let_def
  by (auto intro: driven_trans [OF driven_log_read driven_invoke])

lemma foldl_record_step_driven:
  "driven h st (foldl (record_step E h key node subkey subkey_ln) st rs)"
proof (induction rs arbitrary: st)
  case Nil
  show ?case by simp
next
  case (Cons r rs)
  from driven_trans [OF driven_record_step Cons.IH] show ?case by simp
qed

lemma record_loop_driven:
  "record_loop E h key node subkey subkey_ln node_ptr dataset_size dataset_ptr st = Inr st' \<Longrightarrow>
     driven h st st'"
  by (auto simp: record_loop_layout foldl_record_step_driven split: option.splits)

lemma dataset_body_driven:
  assumes "dataset_body E h key skip_subkey node subkey_ln node_ptr st = Inr (node_ptr', st')"
  shows "driven h st st'"
proof -
  from dataset_body_Inr [OF assms] obtain dataset_size m where
    r: "if m then record_loop E h key node (unat node_ptr) subkey_ln
                        (node_ptr + ucast subkey_ln + 2) dataset_size 0
                        (group_entry skip_subkey subkey_ln node_ptr st) = Inr st'
            else st' = group_entry skip_subkey subkey_ln node_ptr st"
    by blast
  show ?thesis
  proof (cases m)
    case True
    with r driven_trans [OF driven_group_entry record_loop_driven] show ?thesis by auto
  next
    case False
    with r show ?thesis by simp
  qed
qed

lemma dataset_loop_driven:
  assumes "dataset_loop E h key skip_subkey node node_size subkey_ln node_ptr st = Some (Inr st')"
  shows "driven h st st'"
proof -
  have "\<forall>st'. r = Inr st' \<longrightarrow> driven h st st'"
    if "dataset_loop E h key skip_subkey node node_size subkey_ln node_ptr st = Some r" for r
    using that
  proof (induction rule: dataset_loop_induct)
    case (exit node_ptr st)
    show ?case by simp
  next
    case (fault node_ptr st f)
    show ?case by simp
  next
    case (step node_ptr st node_ptr' st' r)
    then show ?case
      by (blast intro: driven_trans dataset_body_driven)
  qed
  with assms show ?thesis by blast
qed

lemma node_body_driven:
  "node_body E h table key skip_subkey subkey_ln node node_size st = Some (Inr st') \<Longrightarrow>
     driven h st st'"
  by (auto simp: node_body_def dataset_loop_driven split: if_splits)

lemma node_loop_driven:
  assumes "node_loop E h sector table key skip_subkey subkey_ln nxt st = Some (Inr st')"
  shows "driven h st st'"
proof -
  have "\<forall>st'. r = Inr st' \<longrightarrow> driven h st st'"
    if "node_loop E h sector table key skip_subkey subkey_ln nxt st = Some r" for r
    using that
  proof (induction rule: node_loop_induct)
    case (last nxt st nxt' node_size node)
    show ?case by simp
  next
    case (fault nxt st nxt' node_size node f)
    show ?case by simp
  next
    case (stop nxt st nxt' node_size node st')
    then show ?case by (simp add: node_body_driven)
  next
    case (more nxt st nxt' node_size node st' r)
    then show ?case
      by (blast intro: driven_trans node_body_driven)
  qed
  with assms show ?thesis by blast
qed


text \<open>
  A handler that returns the stop signal on its first invocation and continue on every
  later one; its context counts the invocations. With it, in the example, the state after
  the first dataset of the first node and after the whole first node, subkey filtering
  skipped.
\<close>

definition ex_stop_first :: "nat handler" where
  "ex_stop_first n a = (n = 0, Suc n)"

definition ex_resumed :: "nat dec_state" where
  "ex_resumed =
     \<lparr>records = 2, is_done = False, ctx = 2,
      calls = [(\<lparr>a_key = [9, 9, 9, 9, 1], a_subkey = Some 0, a_subkey_ln = 1,
                 a_node = ex_node_a, a_data = 5, a_datalen = 2, a_iteration = 0\<rparr>, True),
               (\<lparr>a_key = [9, 9, 9, 9, 1], a_subkey = Some 0, a_subkey_ln = 1,
                 a_node = ex_node_a, a_data = 19, a_datalen = 1, a_iteration = 1\<rparr>, False)],
      reads = [(1, 2), (3, 2), (7, 2), (17, 2)]\<rparr>"

text \<open>
  Claim C10. Inside one matched dataset the stop flag is not consulted: whatever the flag
  is on entry and whatever the handler returns, the handler is invoked for every record
  that passes the size check, each time on the context the previous invocation left, and
  the flag after the dataset is the value the handler returned last (the flag on entry
  when there was no invocation). The flag is consulted at the two boundaries: the loop
  over the groups stops before a group when the flag is set and otherwise decodes the
  whole group, going on with the next group exactly when the flag after the group is
  clear; the loop over the nodes goes on with the next node exactly when the cursor is not
  zero and the flag after the node is clear.
\<close>

theorem c10_stop_flag_inside_dataset:
  "(record_loop E h key node subkey subkey_ln base dataset_size 0 st = Inr st' \<longrightarrow>
      (\<exists>rs cs. records_layout node (unat base) (unat dataset_size) 0 = Some rs \<and>
         calls st' = calls st @ cs \<and>
         length cs = length (filter (\<lambda>r. uint (snd r) + 32 < LDB_MAX_REC_LN E) rs) \<and>
         replay h cs (ctx st, is_done st) = Some (ctx st', is_done st') \<and>
         is_done st' = (if cs = [] then is_done st else snd (last cs)))) \<and>
   (is_done g \<longrightarrow>
      dataset_loop E h key skip_subkey node node_size subkey_ln node_ptr g = Some (Inr g)) \<and>
   (\<not> is_done g \<longrightarrow> node_ptr < node_size \<longrightarrow>
    dataset_body E h key skip_subkey node subkey_ln node_ptr g = Inr (node_ptr', g') \<longrightarrow>
      (\<exists>cs. calls g' = calls g @ cs \<and>
         replay h cs (ctx g, False) = Some (ctx g', is_done g')) \<and>
      dataset_loop E h key skip_subkey node node_size subkey_ln node_ptr g =
        (if is_done g' then Some (Inr g')
         else dataset_loop E h key skip_subkey node node_size subkey_ln node_ptr' g')) \<and>
   (ldb_node_read E sector table key nxt = (nxt', node_size, node) \<longrightarrow>
    \<not> (node_size = 0 \<and> nxt' = 0) \<longrightarrow>
    node_body E h table key skip_subkey subkey_ln node node_size n = Some (Inr n') \<longrightarrow>
      (\<exists>cs. calls n' = calls n @ cs \<and>
         replay h cs (ctx n, is_done n) = Some (ctx n', is_done n')) \<and>
      node_loop E h sector table key skip_subkey subkey_ln nxt n =
        (if nxt' \<noteq> 0 \<and> \<not> is_done n'
         then node_loop E h sector table key skip_subkey subkey_ln nxt' n'
         else Some (Inr n')))"
proof (intro conjI impI)
  assume run: "record_loop E h key node subkey subkey_ln base dataset_size 0 st = Inr st'"
  let ?f = "record_step E h key node subkey subkey_ln"
  from run obtain rs where
    lay: "records_layout node (unat base) (unat dataset_size) 0 = Some rs" and
    st': "st' = foldl ?f st rs"
    by (auto simp: record_loop_layout split: option.splits)
  from foldl_record_step [of E h key node subkey subkey_ln st rs] obtain cs where
    cs: "calls st' = calls st @ cs"
      "map call_range cs = map (\<lambda>r. (fst r, ucast (snd r))) (small_records E rs)"
      "is_done st' = (if cs = [] then is_done st else snd (last cs))"
    unfolding st' by blast
  from record_loop_driven [OF run] obtain cs' where
    cs': "calls st' = calls st @ cs'" "replay h cs' (ctx st, is_done st) = Some (ctx st', is_done st')"
    unfolding driven_def by blast
  from cs(1) cs'(1) have "cs' = cs" by simp
  with cs'(2) have rp: "replay h cs (ctx st, is_done st) = Some (ctx st', is_done st')" by simp
  have "length cs = length (small_records E rs)"
    using arg_cong [OF cs(2), of length] by simp
  then have "length cs = length (filter (\<lambda>r. uint (snd r) + 32 < LDB_MAX_REC_LN E) rs)"
    by (simp add: small_records_def oversized_def)
  with lay cs rp show "\<exists>rs cs. records_layout node (unat base) (unat dataset_size) 0 = Some rs \<and>
         calls st' = calls st @ cs \<and>
         length cs = length (filter (\<lambda>r. uint (snd r) + 32 < LDB_MAX_REC_LN E) rs) \<and>
         replay h cs (ctx st, is_done st) = Some (ctx st', is_done st') \<and>
         is_done st' = (if cs = [] then is_done st else snd (last cs))"
    by blast
next
  assume "is_done g"
  then show "dataset_loop E h key skip_subkey node node_size subkey_ln node_ptr g = Some (Inr g)"
    by (subst dataset_loop.simps) simp
next
  assume g: "\<not> is_done g" "node_ptr < node_size"
    and body: "dataset_body E h key skip_subkey node subkey_ln node_ptr g = Inr (node_ptr', g')"
  from dataset_body_driven [OF body] g(1)
  show "\<exists>cs. calls g' = calls g @ cs \<and> replay h cs (ctx g, False) = Some (ctx g', is_done g')"
    by (simp add: driven_def)
  have "dataset_loop E h key skip_subkey node node_size subkey_ln node_ptr g =
      dataset_loop E h key skip_subkey node node_size subkey_ln node_ptr' g'"
    using g body by (subst dataset_loop.simps) simp
  moreover have "dataset_loop E h key skip_subkey node node_size subkey_ln node_ptr' g' =
      Some (Inr g')" if "is_done g'"
    using that by (subst dataset_loop.simps) simp
  ultimately show "dataset_loop E h key skip_subkey node node_size subkey_ln node_ptr g =
        (if is_done g' then Some (Inr g')
         else dataset_loop E h key skip_subkey node node_size subkey_ln node_ptr' g')"
    by simp
next
  assume rd: "ldb_node_read E sector table key nxt = (nxt', node_size, node)"
    and ne: "\<not> (node_size = 0 \<and> nxt' = 0)"
    and body: "node_body E h table key skip_subkey subkey_ln node node_size n = Some (Inr n')"
  from node_body_driven [OF body]
  show "\<exists>cs. calls n' = calls n @ cs \<and> replay h cs (ctx n, is_done n) = Some (ctx n', is_done n')"
    by (simp add: driven_def)
  show "node_loop E h sector table key skip_subkey subkey_ln nxt n =
        (if nxt' \<noteq> 0 \<and> \<not> is_done n'
         then node_loop E h sector table key skip_subkey subkey_ln nxt' n'
         else Some (Inr n'))"
    using ne by (subst node_loop.simps) (auto simp: rd body)
qed

definition ex_resumed_node :: "nat dec_state" where
  "ex_resumed_node =
     \<lparr>records = 3, is_done = False, ctx = 3,
      calls = calls ex_resumed @
              [(\<lparr>a_key = [9, 9, 9, 9, 1], a_subkey = Some 20, a_subkey_ln = 1,
                 a_node = ex_node_a, a_data = 25, a_datalen = 1, a_iteration = 2\<rparr>, False)],
      reads = [(1, 2), (3, 2), (7, 2), (17, 2), (21, 2), (23, 2)]\<rparr>"

theorem c10_stop_flag_inside_dataset_witness:
  "record_loop ex_externs ex_stop_first [9, 9, 9, 9, 1] ex_node_a 0 1 3 17 0
     ((init_state 0)\<lparr>reads := [(1, 2)]\<rparr>) = Inr ex_resumed \<and>
   map snd (calls ex_resumed) = [True, False] \<and>
   replay ex_stop_first (calls ex_resumed) (0, False) = Some (2, False) \<and>
   dataset_body ex_externs ex_stop_first [9, 9, 9, 9, 1] True ex_node_a 1 0 (init_state 0) =
     Inr (20, ex_resumed) \<and>
   dataset_loop ex_externs ex_stop_first [9, 9, 9, 9, 1] True ex_node_a 26 1 0 (init_state 0) =
     dataset_loop ex_externs ex_stop_first [9, 9, 9, 9, 1] True ex_node_a 26 1 20 ex_resumed \<and>
   dataset_loop ex_externs ex_stop_first [9, 9, 9, 9, 1] True ex_node_a 26 1 20
     (ex_resumed\<lparr>is_done := True\<rparr>) = Some (Inr (ex_resumed\<lparr>is_done := True\<rparr>)) \<and>
   node_body ex_externs ex_stop_first ex_table [9, 9, 9, 9, 1] True 1 ex_node_a 26 (init_state 0) =
     Some (Inr ex_resumed_node) \<and>
   node_loop ex_externs ex_stop_first None ex_table [9, 9, 9, 9, 1] True 1 0 (init_state 0) =
     node_loop ex_externs ex_stop_first None ex_table [9, 9, 9, 9, 1] True 1 7 ex_resumed_node \<and>
   map_option (map_sum id (\<lambda>st. map snd (calls st)))
     (ldb_fetch_recordset ex_externs None ex_table [9, 9, 9, 9, 1] True ex_stop_first 0) =
     Some (Inr [True, False, False, False])"
proof -
  let ?K = "[9, 9, 9, 9, 1] :: byte list"
  have r: "record_loop ex_externs ex_stop_first ?K ex_node_a 0 1 3 17 0
     ((init_state 0)\<lparr>reads := [(1, 2)]\<rparr>) = Inr ex_resumed"
    by code_simp
  have b: "dataset_body ex_externs ex_stop_first ?K True ex_node_a 1 0 (init_state 0) =
     Inr (20, ex_resumed)"
    by code_simp
  have n: "node_body ex_externs ex_stop_first ex_table ?K True 1 ex_node_a 26 (init_state 0) =
     Some (Inr ex_resumed_node)"
    by code_simp
  have rd: "ldb_node_read ex_externs None ex_table ?K 0 = (7, 26, ex_node_a)"
    by (simp add: ex_externs_def)
  have f: "map_option (map_sum id (\<lambda>st. map snd (calls st)))
     (ldb_fetch_recordset ex_externs None ex_table ?K True ex_stop_first 0) =
     Some (Inr [True, False, False, False])"
    by code_simp
  have flags: "map snd (calls ex_resumed) = [True, False]" "\<not> is_done ex_resumed"
    "ctx ex_resumed = 2" "\<not> is_done ex_resumed_node"
    by (simp_all add: ex_resumed_def ex_resumed_node_def)
  note t = c10_stop_flag_inside_dataset [of ex_externs ex_stop_first ?K ex_node_a 0 1 3 17
      "(init_state 0)\<lparr>reads := [(1, 2)]\<rparr>" ex_resumed]
  from t [of "ex_resumed\<lparr>is_done := True\<rparr>", THEN conjunct1] r
  have rp: "replay ex_stop_first (calls ex_resumed) (0, False) = Some (2, False)"
    by (auto simp: init_state_def flags)
  from t [of "ex_resumed\<lparr>is_done := True\<rparr>" True 26 20, THEN conjunct2, THEN conjunct1]
  have g0: "dataset_loop ex_externs ex_stop_first ?K True ex_node_a 26 1 20
     (ex_resumed\<lparr>is_done := True\<rparr>) = Some (Inr (ex_resumed\<lparr>is_done := True\<rparr>))"
    by simp
  from t [of "init_state 0" True 26 0 20 ex_resumed, THEN conjunct2, THEN conjunct2, THEN conjunct1] b
  have g: "dataset_loop ex_externs ex_stop_first ?K True ex_node_a 26 1 0 (init_state 0) =
     dataset_loop ex_externs ex_stop_first ?K True ex_node_a 26 1 20 ex_resumed"
    by (simp add: init_state_def flags)
  from t [of _ True 26 _ _ _ None ex_table 0 7 "init_state 0" ex_resumed_node,
      THEN conjunct2, THEN conjunct2, THEN conjunct2] rd n
  have nl: "node_loop ex_externs ex_stop_first None ex_table ?K True 1 0 (init_state 0) =
     node_loop ex_externs ex_stop_first None ex_table ?K True 1 7 ex_resumed_node"
    by (simp add: flags)
  from r flags(1) rp b g g0 n nl f show ?thesis
    by - (intro conjI, assumption+)
qed

section \<open>Fixed-length tables, corrupt nodes and the stop signal\<close>

text \<open>The arguments of an invocation that hands over a whole node.\<close>

definition whole_node_args :: "byte list \<Rightarrow> byte list \<Rightarrow> 32 word \<Rightarrow> handler_args" where
  "whole_node_args key node node_size =
     \<lparr>a_key = key, a_subkey = None, a_subkey_ln = 0, a_node = node, a_data = 0,
      a_datalen = node_size, a_iteration = 0\<rparr>"

text \<open>
  An invocation that hands over a whole node of the chain: no subkey, the payload at the
  start of the node buffer, and the buffer and size as the node source returned them for
  some cursor.
\<close>

definition whole_node_call :: "ldb_externs \<Rightarrow> byte list option \<Rightarrow> ldb_table \<Rightarrow> byte list
    \<Rightarrow> handler_args \<times> bool \<Rightarrow> bool" where
  "whole_node_call E sector table key c =
     (a_subkey (fst c) = None \<and> a_data (fst c) = 0 \<and>
      (\<exists>cursor. snd (ldb_node_read E sector table key cursor) =
                  (a_datalen (fst c), a_node (fst c))))"

text \<open>
  An example of a fixed-length table: records of 2 bytes, and a chain of one node that
  holds three of them.
\<close>

definition ex_fixed_externs :: ldb_externs where
  "ex_fixed_externs =
     ex_externs\<lparr>ldb_node_read := (\<lambda>sector table key cursor. (0, 6, [1, 2, 3, 4, 5, 6]))\<rparr>"

definition ex_fixed_table :: ldb_table where
  "ex_fixed_table = \<lparr>key_ln = 4, rec_ln = 2\<rparr>"

lemma fixed_node_loop:
  assumes "node_loop E h sector table key skip_subkey subkey_ln nxt st = Some (Inr st')"
    and "rec_ln table \<noteq> 0"
  shows "reads st' = reads st \<and>
         (\<exists>cs. calls st' = calls st @ cs \<and> (\<forall>c \<in> set cs. whole_node_call E sector table key c))"
proof -
  have "\<forall>st'. r = Inr st' \<longrightarrow> reads st' = reads st \<and>
         (\<exists>cs. calls st' = calls st @ cs \<and> (\<forall>c \<in> set cs. whole_node_call E sector table key c))"
    if "node_loop E h sector table key skip_subkey subkey_ln nxt st = Some r" for r
    using that
  proof (induction rule: node_loop_induct)
    case (last nxt st nxt' node_size node)
    show ?case by simp
  next
    case (fault nxt st nxt' node_size node f)
    show ?case by simp
  next
    case (stop nxt st nxt' node_size node st')
    from stop(3) assms(2)
    have st': "st' = invoke h (whole_node_args key node node_size) st"
      by (simp add: node_body_def whole_node_args_def)
    have "whole_node_call E sector table key (invoked h (whole_node_args key node node_size) st)"
      unfolding whole_node_call_def
      by (simp add: whole_node_args_def) (metis stop(1) snd_conv)
    then show ?case
      unfolding st' by simp
  next
    case (more nxt st nxt' node_size node st' r)
    from more(3) assms(2)
    have st': "st' = invoke h (whole_node_args key node node_size) st"
      by (simp add: node_body_def whole_node_args_def)
    have w: "whole_node_call E sector table key (invoked h (whole_node_args key node node_size) st)"
      unfolding whole_node_call_def
      by (simp add: whole_node_args_def) (metis more(1) snd_conv)
    show ?case
    proof (intro allI impI)
      fix st'' assume "r = Inr st''"
      with more.IH obtain cs where cs: "reads st'' = reads st'" "calls st'' = calls st' @ cs"
        "\<forall>c \<in> set cs. whole_node_call E sector table key c"
        by blast
      from cs w show "reads st'' = reads st \<and>
         (\<exists>cs. calls st'' = calls st @ cs \<and> (\<forall>c \<in> set cs. whole_node_call E sector table key c))"
        unfolding st'
        by (intro conjI exI [of _ "invoked h (whole_node_args key node node_size) st # cs"]) simp_all
    qed
  qed
  with assms(1) show ?thesis by blast
qed

text \<open>
  The state in which a decode ends that has invoked the handler once, from the initial
  state, with a whole node: the counter is 1, and the stop flag and the context are what
  the handler returned.
\<close>

definition whole_node_result ::
  "'c handler \<Rightarrow> 'c \<Rightarrow> byte list \<Rightarrow> byte list \<Rightarrow> 32 word \<Rightarrow> 'c dec_state" where
  "whole_node_result h void_ptr key node node_size =
     (let r = h void_ptr (whole_node_args key node node_size)
      in \<lparr>records = 1, is_done = fst r, ctx = snd r,
          calls = [(whole_node_args key node node_size, fst r)], reads = []\<rparr>)"

lemma invoke_whole_node:
  "invoke h (whole_node_args key node node_size) (init_state void_ptr) =
     whole_node_result h void_ptr key node node_size"
  by (simp add: invoke_def whole_node_result_def init_state_def whole_node_args_def Let_def)

text \<open>
  Claim C8. For a fixed-length table and a chain of a single node of \<open>M\<close> records of
  \<open>rec_ln\<close> bytes (\<open>M\<close> at least 1, since a node of size 0 with no successor is the end of
  the chain), the decoder invokes the handler exactly once, with the whole node buffer,
  its size and no subkey, reads nothing of the node itself, and returns 1; the stop flag
  and the context it ends with are those the handler returned for that invocation. On
  any chain, every invocation for a fixed-length table hands over a whole node, and the
  final context and flag are what the handler made of the invocations in the log.
\<close>

theorem c8_fixed_length_single_node:
  assumes "0 < rec_ln table"
  shows "(sector \<noteq> None \<or> ldb_open E table key \<longrightarrow>
          ldb_node_read E sector table key 0 = (0, node_size, node) \<longrightarrow>
          0 < M \<longrightarrow> unat node_size = M * nat (rec_ln table) \<longrightarrow>
          ldb_fetch_recordset E sector table key skip_subkey h void_ptr =
            Some (Inr (whole_node_result h void_ptr key node node_size))) \<and>
         (\<forall>st. ldb_fetch_recordset E sector table key skip_subkey h void_ptr = Some (Inr st) \<longrightarrow>
            reads st = [] \<and> (\<forall>c \<in> set (calls st). whole_node_call E sector table key c) \<and>
            replay h (calls st) (void_ptr, False) = Some (ctx st, is_done st))"
proof (intro conjI impI allI)
  assume op: "sector \<noteq> None \<or> ldb_open E table key"
    and rd: "ldb_node_read E sector table key 0 = (0, node_size, node)"
    and M: "0 < M" "unat node_size = M * nat (rec_ln table)"
  have "unat node_size \<noteq> 0"
    using assms M by simp
  then have nz: "node_size \<noteq> 0"
    by auto
  have nb: "node_body E h table key skip_subkey sk node node_size (init_state void_ptr) =
      Some (Inr (whole_node_result h void_ptr key node node_size))" for sk
    using assms by (simp add: node_body_def invoke_whole_node [symmetric] whole_node_args_def)
  have "node_loop E h sector table key skip_subkey sk 0 (init_state void_ptr) =
      Some (Inr (whole_node_result h void_ptr key node node_size))" for sk
    by (subst node_loop.simps) (simp add: rd nz nb)
  then show "ldb_fetch_recordset E sector table key skip_subkey h void_ptr =
      Some (Inr (whole_node_result h void_ptr key node node_size))"
    using op by (auto simp: ldb_fetch_recordset_def)
next
  fix st
  assume run: "ldb_fetch_recordset E sector table key skip_subkey h void_ptr = Some (Inr st)"
  show "reads st = []"
    using run assms fixed_node_loop [of E h sector table key skip_subkey _ 0 "init_state void_ptr" st]
    by (auto simp: ldb_fetch_recordset_def init_state_def split: if_splits)
  show "\<forall>c \<in> set (calls st). whole_node_call E sector table key c"
    using run assms fixed_node_loop [of E h sector table key skip_subkey _ 0 "init_state void_ptr" st]
    by (auto simp: ldb_fetch_recordset_def init_state_def split: if_splits)
  have "driven h (init_state void_ptr) st"
    using run by (auto simp: ldb_fetch_recordset_def node_loop_driven split: if_splits)
  then show "replay h (calls st) (void_ptr, False) = Some (ctx st, is_done st)"
    by (auto simp: driven_def init_state_def)
qed

text \<open>
  A handler that stops on a nonempty payload and adds the payload length to its context.
\<close>

definition ex_stop_nonempty :: "nat handler" where
  "ex_stop_nonempty n a = (a_datalen a \<noteq> 0, n + unat (a_datalen a))"

theorem c8_fixed_length_single_node_witness:
  "ldb_fetch_recordset ex_fixed_externs None ex_fixed_table [7, 7, 7, 7] False
     ex_stop_nonempty 10 =
     Some (Inr \<lparr>records = 1, is_done = True, ctx = 16,
                calls = [(whole_node_args [7, 7, 7, 7] [1, 2, 3, 4, 5, 6] 6, True)],
                reads = []\<rparr>) \<and>
   replay ex_stop_nonempty [(whole_node_args [7, 7, 7, 7] [1, 2, 3, 4, 5, 6] 6, True)]
     (10, False) = Some (16, True)"
proof -
  have a: "0 < rec_ln ex_fixed_table"
    by (simp add: ex_fixed_table_def)
  have b: "ldb_open ex_fixed_externs ex_fixed_table [7, 7, 7, 7]"
    by (simp add: ex_fixed_externs_def ex_externs_def)
  have c: "ldb_node_read ex_fixed_externs None ex_fixed_table [7, 7, 7, 7] 0 =
      (0, 6, [1, 2, 3, 4, 5, 6])"
    by (simp add: ex_fixed_externs_def)
  have d: "unat (6 :: 32 word) = 3 * nat (rec_ln ex_fixed_table)"
    by (simp add: ex_fixed_table_def)
  have e: "whole_node_result ex_stop_nonempty 10 [7, 7, 7, 7] [1, 2, 3, 4, 5, 6] 6 =
      \<lparr>records = 1, is_done = True, ctx = 16,
                calls = [(whole_node_args [7, 7, 7, 7] [1, 2, 3, 4, 5, 6] 6, True)],
                reads = []\<rparr>"
    by (simp add: whole_node_result_def ex_stop_nonempty_def whole_node_args_def)
  note t = c8_fixed_length_single_node [OF a, of None ex_fixed_externs "[7, 7, 7, 7]" 6
      "[1, 2, 3, 4, 5, 6]" 3 False ex_stop_nonempty 10]
  from t [THEN conjunct1] b c d e
  have run: "ldb_fetch_recordset ex_fixed_externs None ex_fixed_table [7, 7, 7, 7] False
     ex_stop_nonempty 10 =
     Some (Inr \<lparr>records = 1, is_done = True, ctx = 16,
                calls = [(whole_node_args [7, 7, 7, 7] [1, 2, 3, 4, 5, 6] 6, True)],
                reads = []\<rparr>)"
    by simp
  from t [THEN conjunct2] run
  have "replay ex_stop_nonempty [(whole_node_args [7, 7, 7, 7] [1, 2, 3, 4, 5, 6] 6, True)]
     (10, False) = Some (16, True)"
    by auto
  with run show ?thesis by simp
qed

text \<open>
  The final state of the full decode of the example chain with subkey filtering skipped.
\<close>

definition ex_full_decode :: "unit dec_state" where
  "ex_full_decode =
     \<lparr>records = 4, is_done = False, ctx = (),
      calls = [(\<lparr>a_key = [9, 9, 9, 9, 1], a_subkey = Some 0, a_subkey_ln = 1,
                 a_node = ex_node_a, a_data = 5, a_datalen = 2, a_iteration = 0\<rparr>, False),
               (\<lparr>a_key = [9, 9, 9, 9, 1], a_subkey = Some 0, a_subkey_ln = 1,
                 a_node = ex_node_a, a_data = 19, a_datalen = 1, a_iteration = 1\<rparr>, False),
               (\<lparr>a_key = [9, 9, 9, 9, 1], a_subkey = Some 20, a_subkey_ln = 1,
                 a_node = ex_node_a, a_data = 25, a_datalen = 1, a_iteration = 2\<rparr>, False),
               (\<lparr>a_key = [9, 9, 9, 9, 1], a_subkey = Some 0, a_subkey_ln = 1,
                 a_node = ex_node_c, a_data = 5, a_datalen = 2, a_iteration = 3\<rparr>, False)],
      reads = [(1, 2), (3, 2), (7, 2), (17, 2), (21, 2), (23, 2), (1, 2), (3, 2)]\<rparr>"

text \<open>
  Claim C4. For a variable-length table, a node that the validator rejects leaves the
  state as it is (no invocation, no count, no fault), and the loop goes on with the next
  node of the chain exactly when the cursor returned with the node is not zero.
\<close>

theorem c4_corrupt_node_skipped:
  assumes "rec_ln table = 0"
    and "ldb_node_read E sector table key nxt = (nxt', node_size, node)"
    and "\<not> ldb_validate_node E node node_size subkey_ln"
  shows "node_body E h table key skip_subkey subkey_ln node node_size st = Some (Inr st) \<and>
         (\<not> is_done st \<longrightarrow>
            node_loop E h sector table key skip_subkey subkey_ln nxt st =
              (if nxt' \<noteq> 0
               then node_loop E h sector table key skip_subkey subkey_ln nxt' st
               else Some (Inr st)))"
proof -
  have nb: "node_body E h table key skip_subkey subkey_ln node node_size st = Some (Inr st)"
    using assms(1,3) by (simp add: node_body_def)
  have "node_loop E h sector table key skip_subkey subkey_ln nxt st =
              (if nxt' \<noteq> 0
               then node_loop E h sector table key skip_subkey subkey_ln nxt' st
               else Some (Inr st))" if "\<not> is_done st"
    using that by (subst node_loop.simps) (simp add: assms(2) nb)
  with nb show ?thesis by blast
qed


theorem c4_corrupt_node_skipped_witness:
  "rec_ln ex_table = 0 \<and>
   ldb_node_read ex_externs None ex_table [9, 9, 9, 9, 2] 7 = (9, 6, ex_node_b) \<and>
   \<not> ldb_validate_node ex_externs ex_node_b 6 1 \<and>
   \<not> is_done (init_state ()) \<and>
   node_body ex_externs ex_continue ex_table [9, 9, 9, 9, 2] False 1 ex_node_b 6 (init_state ()) =
     Some (Inr (init_state ())) \<and>
   node_loop ex_externs ex_continue None ex_table [9, 9, 9, 9, 2] False 1 7 (init_state ()) =
     node_loop ex_externs ex_continue None ex_table [9, 9, 9, 9, 2] False 1 9 (init_state ()) \<and>
   map_option (map_sum id (\<lambda>st. map call_range (calls st)))
     (node_loop ex_externs ex_continue None ex_table [9, 9, 9, 9, 2] False 1 9 (init_state ())) =
     Some (Inr [(5, 2)])"
proof -
  have a: "rec_ln ex_table = 0"
    by (simp add: ex_table_def)
  have b: "ldb_node_read ex_externs None ex_table [9, 9, 9, 9, 2] 7 = (9, 6, ex_node_b)"
    by (simp add: ex_externs_def)
  have c: "\<not> ldb_validate_node ex_externs ex_node_b 6 1"
    by code_simp
  have d: "\<not> is_done (init_state ())"
    by (simp add: init_state_def)
  have e: "map_option (map_sum id (\<lambda>st. map call_range (calls st)))
     (node_loop ex_externs ex_continue None ex_table [9, 9, 9, 9, 2] False 1 9 (init_state ())) =
     Some (Inr [(5, 2)])"
    by code_simp
  from c4_corrupt_node_skipped [OF a b c, where h = ex_continue and skip_subkey = False
      and st = "init_state ()"]
    a b c d e
  show ?thesis by simp
qed

text \<open>
  The value returned by a decode, and the number of handler invocations it made.
\<close>

definition count_and_invocations :: "(fault + 'c dec_state) option \<Rightarrow> (nat \<times> nat) option" where
  "count_and_invocations r =
     (case r of Some (Inr st) \<Rightarrow> Some (unat (records st), length (calls st)) | _ \<Rightarrow> None)"

text \<open>
  Claim C1 does not hold of the code. In the example, the first matched dataset holds two
  records below the size limit (AA BB at offset 5 and CC at offset 19); the handler of
  the existence check returns the stop signal on its first invocation, and is invoked for
  the second record all the same: the decoder returns 2. For the same reason the
  first-record fetch, started on a buffer of six zero bytes, ends with the length and
  payload of the second record written over those of the first.
\<close>

theorem c1_stop_in_dataset_not_immediate:
  "count_and_invocations
     (ldb_fetch_recordset ex_externs None ex_table [9, 9, 9, 9, 1] False
        ldb_key_exists_handler ()) = Some (2, 2) \<and>
   ldb_get_first_record ex_externs ex_table [9, 9, 9, 9, 1] [0, 0, 0, 0, 0, 0] =
     Some (Inr [0, 0, 0, 1, 204, 187])"
  by code_simp

theorem c2_count_is_invocations_mod_witness:
  "ldb_fetch_recordset ex_externs None ex_table [9, 9, 9, 9, 1] True ex_continue () =
     Some (Inr ex_full_decode) \<and>
   records ex_full_decode = of_nat (length (calls ex_full_decode)) \<and>
   unat (records ex_full_decode) = length (calls ex_full_decode) mod 2 ^ 32 \<and>
   length (calls ex_full_decode) < 2 ^ 32 \<and>
   unat (records ex_full_decode) = length (calls ex_full_decode) \<and>
   unat (records ex_full_decode) = 4"
proof -
  have h: "ldb_fetch_recordset ex_externs None ex_table [9, 9, 9, 9, 1] True ex_continue () =
     Some (Inr ex_full_decode)"
    by code_simp
  have l: "length (calls ex_full_decode) = 4"
    by (simp add: ex_full_decode_def)
  from c2_count_is_invocations_mod [OF h] h l show ?thesis
    by simp
qed

section \<open>Subkey filtering\<close>

text \<open>
  The subkey bytes at offset \<open>off\<close> of the node are byte for byte the key bytes after the
  4-byte primary key.
\<close>

definition subkey_equal :: "byte list \<Rightarrow> byte list \<Rightarrow> 8 word \<Rightarrow> nat \<Rightarrow> bool" where
  "subkey_equal node key subkey_ln off =
     (take (unat subkey_ln) (drop off node) = take (unat subkey_ln) (drop 4 key))"

lemma key_matched_cases:
  assumes "key_matched skip_subkey subkey_ln node subkey key = Some m"
  shows "m = (\<not> (\<not> skip_subkey \<and> subkey_ln \<noteq> 0 \<and> \<not> subkey_equal node key subkey_ln subkey))"
  using assms
  by (auto simp: key_matched_def subkey_compared_def memcmp_eq_def subkey_equal_def
      split: if_splits)

lemma dataset_loop_subkeys:
  assumes "dataset_loop E h key skip_subkey node node_size subkey_ln node_ptr st = Some (Inr st')"
    and "\<not> skip_subkey" and "subkey_ln \<noteq> 0"
  shows "\<exists>cs. calls st' = calls st @ cs \<and>
           (\<forall>c \<in> set cs. \<exists>off. a_subkey (fst c) = Some off \<and> subkey_equal node key subkey_ln off)"
proof -
  have "\<forall>st'. r = Inr st' \<longrightarrow> (\<exists>cs. calls st' = calls st @ cs \<and>
           (\<forall>c \<in> set cs. \<exists>off. a_subkey (fst c) = Some off \<and> subkey_equal node key subkey_ln off))"
    if "dataset_loop E h key skip_subkey node node_size subkey_ln node_ptr st = Some r" for r
    using that
  proof (induction rule: dataset_loop_induct)
    case (exit node_ptr st)
    show ?case by simp
  next
    case (fault node_ptr st f)
    show ?case by simp
  next
    case (step node_ptr st node_ptr' st' r)
    from dataset_body_calls [OF step(3)] obtain cs where
      cs: "calls st' = calls st @ cs"
        "\<forall>c \<in> set cs. from_group key node (unat node_ptr) subkey_ln c"
        "cs \<noteq> [] \<longrightarrow> key_matched skip_subkey subkey_ln node (unat node_ptr) key = Some True"
      by blast
    have here: "\<forall>c \<in> set cs. \<exists>off. a_subkey (fst c) = Some off \<and> subkey_equal node key subkey_ln off"
    proof
      fix c assume c: "c \<in> set cs"
      then have "cs \<noteq> []" by auto
      with cs(3) have "key_matched skip_subkey subkey_ln node (unat node_ptr) key = Some True"
        by simp
      from key_matched_cases [OF this] assms(2,3)
      have "subkey_equal node key subkey_ln (unat node_ptr)" by simp
      moreover from cs(2) c have "a_subkey (fst c) = Some (unat node_ptr)"
        by (simp add: from_group_def)
      ultimately show "\<exists>off. a_subkey (fst c) = Some off \<and> subkey_equal node key subkey_ln off"
        by blast
    qed
    show ?case
    proof (intro allI impI)
      fix st'' assume "r = Inr st''"
      with step.IH obtain cs' where cs': "calls st'' = calls st' @ cs'"
        "\<forall>c \<in> set cs'. \<exists>off. a_subkey (fst c) = Some off \<and> subkey_equal node key subkey_ln off"
        by blast
      from cs(1) cs' here
      show "\<exists>cs. calls st'' = calls st @ cs \<and>
           (\<forall>c \<in> set cs. \<exists>off. a_subkey (fst c) = Some off \<and> subkey_equal node key subkey_ln off)"
        by (intro exI [of _ "cs @ cs'"]) auto
    qed
  qed
  with assms(1) show ?thesis by blast
qed

text \<open>
  Claim C6. One dataset group leaves the cursor after the full dataset, whether matched
  or not. With filtering not skipped and a nonzero subkey length, a group whose subkey
  bytes differ from the key bytes after the primary key passes nothing to the handler; in
  every other case (filtering skipped, zero subkey length, or equal bytes) the records of
  the group are decoded. Over a whole node, with filtering on, every invocation was made
  for a group whose subkey equals the key bytes.
\<close>

theorem c6_subkey_filtering:
  "(dataset_body E h key skip_subkey node subkey_ln node_ptr st = Inr (node_ptr', st') \<longrightarrow>
      (\<exists>dataset_size.
         uint16_read node (unat (node_ptr + ucast subkey_ln)) = Some dataset_size \<and>
         node_ptr' = node_ptr + ucast subkey_ln + 2 + ucast dataset_size \<and>
         (if \<not> skip_subkey \<and> subkey_ln \<noteq> 0 \<and>
             \<not> subkey_equal node key subkey_ln (unat node_ptr)
          then calls st' = calls st \<and> records st' = records st \<and>
               is_done st' = is_done st \<and> ctx st' = ctx st
          else record_loop E h key node (unat node_ptr) subkey_ln
                 (node_ptr + ucast subkey_ln + 2) dataset_size 0
                 (group_entry skip_subkey subkey_ln node_ptr st) = Inr st'))) \<and>
   (dataset_loop E h key skip_subkey node node_size subkey_ln node_ptr st = Some (Inr st'') \<longrightarrow>
      \<not> skip_subkey \<longrightarrow> subkey_ln \<noteq> 0 \<longrightarrow>
      (\<exists>cs. calls st'' = calls st @ cs \<and>
         (\<forall>c \<in> set cs. \<exists>off. a_subkey (fst c) = Some off \<and> subkey_equal node key subkey_ln off)))"
proof (intro conjI impI)
  assume "dataset_body E h key skip_subkey node subkey_ln node_ptr st = Inr (node_ptr', st')"
  from dataset_body_Inr [OF this] obtain dataset_size m where
    d: "uint16_read node (unat (node_ptr + ucast subkey_ln)) = Some dataset_size"
      "key_matched skip_subkey subkey_ln node (unat node_ptr) key = Some m"
      "node_ptr' = node_ptr + ucast subkey_ln + 2 + ucast dataset_size"
      "if m then record_loop E h key node (unat node_ptr) subkey_ln
                        (node_ptr + ucast subkey_ln + 2) dataset_size 0
                        (group_entry skip_subkey subkey_ln node_ptr st) = Inr st'
            else st' = group_entry skip_subkey subkey_ln node_ptr st"
    by blast
  note m = key_matched_cases [OF d(2)]
  show "\<exists>dataset_size.
         uint16_read node (unat (node_ptr + ucast subkey_ln)) = Some dataset_size \<and>
         node_ptr' = node_ptr + ucast subkey_ln + 2 + ucast dataset_size \<and>
         (if \<not> skip_subkey \<and> subkey_ln \<noteq> 0 \<and>
             \<not> subkey_equal node key subkey_ln (unat node_ptr)
          then calls st' = calls st \<and> records st' = records st \<and>
               is_done st' = is_done st \<and> ctx st' = ctx st
          else record_loop E h key node (unat node_ptr) subkey_ln
                 (node_ptr + ucast subkey_ln + 2) dataset_size 0
                 (group_entry skip_subkey subkey_ln node_ptr st) = Inr st')"
  proof (cases m)
    case True
    with d m show ?thesis by (intro exI [of _ dataset_size]) auto
  next
    case False
    with d m show ?thesis by (intro exI [of _ dataset_size]) auto
  qed
next
  assume "dataset_loop E h key skip_subkey node node_size subkey_ln node_ptr st = Some (Inr st'')"
    "\<not> skip_subkey" "subkey_ln \<noteq> 0"
  then show "\<exists>cs. calls st'' = calls st @ cs \<and>
         (\<forall>c \<in> set cs. \<exists>off. a_subkey (fst c) = Some off \<and> subkey_equal node key subkey_ln off)"
    by (rule dataset_loop_subkeys)
qed

text \<open>
  In the example, with the key of subkey 2 and filtering on: the state after the first
  group, which does not match, and after the whole first node.
\<close>

definition ex_unmatched :: "unit dec_state" where
  "ex_unmatched = \<lparr>records = 0, is_done = False, ctx = (), calls = [], reads = [(1, 2), (0, 1)]\<rparr>"

definition ex_filtered :: "unit dec_state" where
  "ex_filtered =
     \<lparr>records = 1, is_done = False, ctx = (),
      calls = [(\<lparr>a_key = [9, 9, 9, 9, 2], a_subkey = Some 20, a_subkey_ln = 1,
                 a_node = ex_node_a, a_data = 25, a_datalen = 1, a_iteration = 0\<rparr>, False)],
      reads = [(1, 2), (0, 1), (21, 2), (20, 1), (23, 2)]\<rparr>"

theorem c6_subkey_filtering_witness:
  "dataset_body ex_externs ex_continue [9, 9, 9, 9, 2] False ex_node_a 1 0 (init_state ()) =
     Inr (20, ex_unmatched) \<and>
   dataset_loop ex_externs ex_continue [9, 9, 9, 9, 2] False ex_node_a 26 1 0 (init_state ()) =
     Some (Inr ex_filtered) \<and>
   \<not> subkey_equal ex_node_a [9, 9, 9, 9, 2] 1 0 \<and>
   uint16_read ex_node_a 1 = Some 17 \<and>
   calls ex_unmatched = [] \<and> records ex_unmatched = 0 \<and>
   map (\<lambda>c. a_subkey (fst c)) (calls ex_filtered) = [Some 20] \<and>
   subkey_equal ex_node_a [9, 9, 9, 9, 2] 1 20"
proof -
  have h1: "dataset_body ex_externs ex_continue [9, 9, 9, 9, 2] False ex_node_a 1 0
      (init_state ()) = Inr (20, ex_unmatched)"
    by code_simp
  have h2: "dataset_loop ex_externs ex_continue [9, 9, 9, 9, 2] False ex_node_a 26 1 0
      (init_state ()) = Some (Inr ex_filtered)"
    by code_simp
  have ne: "\<not> subkey_equal ex_node_a [9, 9, 9, 9, 2] 1 0"
    by (simp add: subkey_equal_def ex_node_a_def)
  note t = c6_subkey_filtering [of ex_externs ex_continue "[9, 9, 9, 9, 2]" False ex_node_a 1 0
      "init_state ()" 20 ex_unmatched 26 ex_filtered]
  from t [THEN conjunct1] h1 ne
  have a: "calls ex_unmatched = []" "records ex_unmatched = 0"
    by (auto simp: init_state_def)
  have rd: "uint16_read ex_node_a 1 = Some 17"
    by code_simp
  from t [THEN conjunct2] h2
  have b: "\<forall>c \<in> set (calls ex_filtered).
      \<exists>off. a_subkey (fst c) = Some off \<and> subkey_equal ex_node_a [9, 9, 9, 9, 2] 1 off"
    by (auto simp: init_state_def)
  have c: "map (\<lambda>c. a_subkey (fst c)) (calls ex_filtered) = [Some 20]"
    by (simp add: ex_filtered_def)
  from b have d: "subkey_equal ex_node_a [9, 9, 9, 9, 2] 1 20"
    by (simp add: ex_filtered_def)
  from h1 h2 ne rd a c d show ?thesis
    by - (intro conjI, assumption+)
qed

section \<open>Reads stay inside a consistent node\<close>

text \<open>
  From \<open>st\<close> to \<open>st'\<close> the decoder has read only ranges of the node that end at or
  before \<open>bound\<close>, and has handed only such ranges to the handler.
\<close>

definition within :: "nat \<Rightarrow> 'c dec_state \<Rightarrow> 'c dec_state \<Rightarrow> bool" where
  "within bound st st' =
     (\<exists>rs cs. reads st' = reads st @ rs \<and> (\<forall>r \<in> set rs. fst r + snd r \<le> bound) \<and>
        calls st' = calls st @ cs \<and>
        (\<forall>c \<in> set cs. a_data (fst c) + unat (a_datalen (fst c)) \<le> bound))"

lemma within_refl [simp]: "within bound st st"
  by (simp add: within_def)

lemma within_trans:
  assumes "within bound a b" and "within bound b c"
  shows "within bound a c"
proof -
  from assms(1) obtain rs cs where 1: "reads b = reads a @ rs" "\<forall>r \<in> set rs. fst r + snd r \<le> bound"
    "calls b = calls a @ cs" "\<forall>c \<in> set cs. a_data (fst c) + unat (a_datalen (fst c)) \<le> bound"
    unfolding within_def by blast
  from assms(2) obtain rs' cs' where 2: "reads c = reads b @ rs'"
    "\<forall>r \<in> set rs'. fst r + snd r \<le> bound"
    "calls c = calls b @ cs'" "\<forall>c \<in> set cs'. a_data (fst c) + unat (a_datalen (fst c)) \<le> bound"
    unfolding within_def by blast
  from 1 2 show ?thesis
    unfolding within_def
    by (intro exI [of _ "rs @ rs'"] exI [of _ "cs @ cs'"]) auto
qed

lemma dataset_consistent_layout:
  "dataset_consistent node base dataset_size p \<Longrightarrow>
     \<exists>rs. records_layout node base dataset_size p = Some rs \<and>
       (\<forall>r \<in> set rs. base + p + 2 \<le> fst r \<and> fst r + unat (snd r) \<le> base + dataset_size)"
proof (induction node base dataset_size p rule: dataset_consistent.induct)
  case (1 node base dataset_size p)
  show ?case
  proof (cases "p < dataset_size")
    case False
    then show ?thesis
      by (subst records_layout.simps) simp
  next
    case True
    with "1.prems" obtain record_size where
      rd: "uint16_read node (base + p) = Some record_size" and
      fit: "p + 2 + unat record_size \<le> dataset_size" and
      rest: "dataset_consistent node base dataset_size (p + 2 + unat record_size)"
      by (subst (asm) dataset_consistent.simps) (auto split: option.splits)
    from "1.IH" [OF True rd rest] obtain rs where
      rs: "records_layout node base dataset_size (p + 2 + unat record_size) = Some rs"
        "\<forall>r \<in> set rs. base + (p + 2 + unat record_size) + 2 \<le> fst r \<and>
           fst r + unat (snd r) \<le> base + dataset_size"
      by blast
    have "records_layout node base dataset_size p = Some ((base + p + 2, record_size) # rs)"
      using True rd rs(1) by (subst records_layout.simps) simp
    with rs(2) fit show ?thesis
      by fastforce
  qed
qed

lemma unat_ucast_8_32: "unat (ucast (w :: 8 word) :: 32 word) = unat w"
  by (simp add: unsigned_ucast_eq take_bit_nat_eq_self_iff order_less_trans [OF unsigned_less])

lemma group_cursor:
  fixes node_ptr node_size :: "32 word" and subkey_ln :: "8 word" and dataset_size :: "16 word"
  assumes "unat node_ptr + unat subkey_ln + 2 + unat dataset_size \<le> unat node_size"
  shows "unat (node_ptr + ucast subkey_ln) = unat node_ptr + unat subkey_ln"
    and "unat (node_ptr + ucast subkey_ln + 2) = unat node_ptr + unat subkey_ln + 2"
    and "unat (node_ptr + ucast subkey_ln + 2 + ucast dataset_size) =
           unat node_ptr + unat subkey_ln + 2 + unat dataset_size"
proof -
  have b: "unat node_size < 2 ^ 32"
    using unsigned_less [of node_size, where 'a = nat] by simp
  show a1: "unat (node_ptr + ucast subkey_ln) = unat node_ptr + unat subkey_ln"
    using assms b by (simp add: unat_word_ariths unat_ucast_8_32)
  show a2: "unat (node_ptr + ucast subkey_ln + 2) = unat node_ptr + unat subkey_ln + 2"
    using assms b a1 by (simp add: unat_word_ariths [where 'a = 32])
  show "unat (node_ptr + ucast subkey_ln + 2 + ucast dataset_size) =
           unat node_ptr + unat subkey_ln + 2 + unat dataset_size"
    using assms b a2 by (simp add: unat_word_ariths [where 'a = 32] unat_ucast_16_32)
qed

lemma dataset_body_within:
  fixes node_ptr node_size :: "32 word"
  assumes rd: "uint16_read node (unat node_ptr + unat subkey_ln) = Some dataset_size"
    and fit: "unat node_ptr + unat subkey_ln + 2 + unat dataset_size \<le> unat node_size"
    and ds: "dataset_consistent node (unat node_ptr + unat subkey_ln + 2) (unat dataset_size) 0"
    and key: "\<not> skip_subkey \<and> subkey_ln \<noteq> 0 \<longrightarrow> 4 + unat subkey_ln \<le> length key"
  shows "\<exists>st'. dataset_body E h key skip_subkey node subkey_ln node_ptr st =
             Inr (node_ptr + ucast subkey_ln + 2 + ucast dataset_size, st') \<and>
           within (unat node_size) st st'"
proof -
  note cur = group_cursor [OF fit]
  let ?base = "unat node_ptr + unat subkey_ln + 2"
  let ?entry = "group_entry skip_subkey subkey_ln node_ptr st"
  from rd have len: "unat node_ptr + unat subkey_ln + 2 \<le> length node"
    by (simp add: uint16_read_def split: if_splits)
  with key have "\<exists>m. key_matched skip_subkey subkey_ln node (unat node_ptr) key = Some m"
    by (auto simp: key_matched_def subkey_compared_def memcmp_eq_def)
  then obtain m where m: "key_matched skip_subkey subkey_ln node (unat node_ptr) key = Some m"
    by blast
  let ?rs = "if subkey_compared skip_subkey subkey_ln
             then [(unat node_ptr + unat subkey_ln, 2), (unat node_ptr, unat subkey_ln)]
             else [(unat node_ptr + unat subkey_ln, 2)]"
  have "reads ?entry = reads st @ ?rs"
    by (simp add: group_entry_def Let_def cur)
  moreover have "\<forall>r \<in> set ?rs. fst r + snd r \<le> unat node_size"
    using fit by simp
  ultimately have entry: "within (unat node_size) st ?entry"
    unfolding within_def
    by (intro exI [of _ ?rs] exI [of _ "[]"]) simp
  from dataset_consistent_layout [OF ds] obtain rs where
    lay: "records_layout node ?base (unat dataset_size) 0 = Some rs" and
    bnd: "\<forall>r \<in> set rs. ?base + 0 + 2 \<le> fst r \<and> fst r + unat (snd r) \<le> ?base + unat dataset_size"
    by blast
  let ?f = "record_step E h key node (unat node_ptr) subkey_ln"
  from foldl_record_step [of E h key node "unat node_ptr" subkey_ln ?entry rs] obtain cs where
    cs: "calls (foldl ?f ?entry rs) = calls ?entry @ cs"
      "map call_range cs = map (\<lambda>r. (fst r, ucast (snd r))) (small_records E rs)"
      "reads (foldl ?f ?entry rs) = reads ?entry @ map (\<lambda>r. (fst r - 2, 2)) rs"
    by blast
  have rbound: "\<forall>r \<in> set (map (\<lambda>r. (fst r - 2, 2)) rs). fst r + snd r \<le> unat node_size"
    using bnd fit by fastforce
  have cbound: "a_data (fst c) + unat (a_datalen (fst c)) \<le> unat node_size" if c: "c \<in> set cs" for c
  proof -
    from c have "call_range c \<in> set (map call_range cs)" by simp
    then obtain r where r: "r \<in> set rs" "call_range c = (fst r, ucast (snd r))"
      unfolding cs(2) by (auto simp: small_records_def)
    from r(2) have "a_data (fst c) = fst r" "a_datalen (fst c) = ucast (snd r)"
      by (simp_all add: call_range_def)
    with bnd r(1) fit show ?thesis
      by (auto simp: unat_ucast_16_32)
  qed
  have recs: "within (unat node_size) ?entry (foldl ?f ?entry rs)"
    unfolding within_def using cs(1,3) rbound cbound by blast
  have body: "dataset_body E h key skip_subkey node subkey_ln node_ptr st =
      Inr (node_ptr + ucast subkey_ln + 2 + ucast dataset_size,
           if m then foldl ?f ?entry rs else ?entry)"
    using rd m lay
    by (simp add: dataset_body_def Let_def cur record_loop_layout group_entry_def)
  show ?thesis
  proof (cases m)
    case True
    with body within_trans [OF entry recs] show ?thesis by simp
  next
    case False
    with body entry show ?thesis by simp
  qed
qed


lemma dataset_loop_within:
  fixes node_ptr node_size :: "32 word"
  assumes "node_consistent node bound sk p"
    and "bound = unat node_size" and "sk = unat subkey_ln" and "p = unat node_ptr"
    and "\<not> skip_subkey \<and> subkey_ln \<noteq> 0 \<longrightarrow> 4 + unat subkey_ln \<le> length key"
  shows "\<exists>st'. dataset_loop E h key skip_subkey node node_size subkey_ln node_ptr st =
             Some (Inr st') \<and> within (unat node_size) st st'"
  using assms
proof (induction node bound sk p arbitrary: node_ptr st rule: node_consistent.induct)
  case (1 node bound sk p)
  show ?case
  proof (cases "node_ptr < node_size \<and> \<not> is_done st")
    case False
    have "dataset_loop E h key skip_subkey node node_size subkey_ln node_ptr st =
        Some (Inr st)"
      by (subst dataset_loop.simps) (simp only: False if_False)
    then show ?thesis by simp
  next
    case True
    then have lt: "p < bound"
      using "1.prems"(2,4) by (simp add: word_less_nat_alt)
    with "1.prems"(1) obtain dataset_size where
      rd: "uint16_read node (p + sk) = Some dataset_size" and
      fit: "p + sk + 2 + unat dataset_size \<le> bound" and
      ds: "dataset_consistent node (p + sk + 2) (unat dataset_size) 0" and
      rest: "node_consistent node bound sk (p + sk + 2 + unat dataset_size)"
      by (subst (asm) node_consistent.simps) (auto split: option.splits)
    let ?next = "node_ptr + ucast subkey_ln + 2 + ucast dataset_size"
    have fit': "unat node_ptr + unat subkey_ln + 2 + unat dataset_size \<le> unat node_size"
      using fit "1.prems"(2,3,4) by simp
    from dataset_body_within [of node node_ptr subkey_ln dataset_size node_size skip_subkey key
        E h st] rd fit' ds "1.prems"(2-)
    obtain st1 where
      body: "dataset_body E h key skip_subkey node subkey_ln node_ptr st = Inr (?next, st1)" and
      w1: "within (unat node_size) st st1"
      by auto
    have nx: "p + sk + 2 + unat dataset_size = unat ?next"
      using group_cursor(3) [OF fit'] "1.prems"(3,4) by simp
    from "1.IH" [OF lt rd rest "1.prems"(2,3) nx "1.prems"(5), of st1] obtain st' where
      run: "dataset_loop E h key skip_subkey node node_size subkey_ln ?next st1 = Some (Inr st')"
      and w2: "within (unat node_size) st1 st'"
      by blast
    have "dataset_loop E h key skip_subkey node node_size subkey_ln node_ptr st = Some (Inr st')"
      using True body run by (subst dataset_loop.simps) simp
    with within_trans [OF w1 w2] show ?thesis by blast
  qed
qed

text \<open>
  Claim C5. On a variable-length node whose prefix-declared lengths are consistent with
  its size (and with a key that holds the subkey bytes the decoder compares), the loop
  over the dataset groups returns without a fault, every range of the node buffer the
  decoder reads ends within the first \<open>node_size\<close> bytes, and so does every payload
  range handed to the handler.
\<close>

theorem c5_reads_within_node_size:
  assumes "node_consistent node (unat node_size) (unat subkey_ln) 0"
    and "\<not> skip_subkey \<and> subkey_ln \<noteq> 0 \<longrightarrow> 4 + unat subkey_ln \<le> length key"
  shows "\<exists>st' rs cs.
           dataset_loop E h key skip_subkey node node_size subkey_ln 0 st = Some (Inr st') \<and>
           reads st' = reads st @ rs \<and>
           (\<forall>r \<in> set rs. fst r + snd r \<le> unat node_size) \<and>
           calls st' = calls st @ cs \<and>
           (\<forall>c \<in> set cs. a_data (fst c) + unat (a_datalen (fst c)) \<le> unat node_size)"
  using dataset_loop_within [OF assms(1) refl refl _ assms(2), of 0 E h st]
  unfolding within_def by auto

theorem c5_reads_within_node_size_witness:
  "node_consistent ex_node_a (unat (26 :: 32 word)) (unat (1 :: 8 word)) 0 \<and>
   4 + unat (1 :: 8 word) \<le> length [9 :: byte, 9, 9, 9, 2] \<and>
   (\<exists>st' rs cs.
      dataset_loop ex_externs ex_continue [9, 9, 9, 9, 2] False ex_node_a 26 1 0 (init_state ()) =
        Some (Inr st') \<and>
      reads st' = reads (init_state ()) @ rs \<and>
      (\<forall>r \<in> set rs. fst r + snd r \<le> unat (26 :: 32 word)) \<and>
      calls st' = calls (init_state ()) @ cs \<and>
      (\<forall>c \<in> set cs. a_data (fst c) + unat (a_datalen (fst c)) \<le> unat (26 :: 32 word)))"
proof -
  have a: "node_consistent ex_node_a (unat (26 :: 32 word)) (unat (1 :: 8 word)) 0"
    by code_simp
  have b: "\<not> False \<and> (1 :: 8 word) \<noteq> 0 \<longrightarrow> 4 + unat (1 :: 8 word) \<le> length [9 :: byte, 9, 9, 9, 2]"
    by simp
  from c5_reads_within_node_size [OF a b, of ex_externs ex_continue "init_state ()"] a
  show ?thesis by simp
qed

section \<open>The existence check\<close>

text \<open>
  A run with some handler and the run of the existence check side by side, from states
  with the same stop flag: as long as the first has not invoked its handler, the second
  has not either and the flags agree; once the first has, the second has stopped with a
  counter that has grown by at least 1 and at most 65535.
\<close>

definition exists_sync ::
  "'c dec_state \<Rightarrow> 'c dec_state \<Rightarrow> unit dec_state \<Rightarrow> unit dec_state \<Rightarrow> bool" where
  "exists_sync st st' ex ex' =
     (length (calls st) \<le> length (calls st') \<and>
      (if length (calls st') = length (calls st)
       then records ex' = records ex \<and> is_done ex' = is_done ex \<and> is_done st' = is_done st
       else is_done ex' \<and> (\<exists>n. 0 < n \<and> n \<le> 65535 \<and> records ex' = records ex + of_nat n)))"

lemma invoked_exists [simp]: "snd (invoked ldb_key_exists_handler a st)"
  by (simp add: invoked_def ldb_key_exists_handler_def)




lemma exists_sync_refl [simp]: "exists_sync st st ex ex"
  by (simp add: exists_sync_def)











text \<open>
  The run of the existence check between two states: the handler has been invoked at most
  65535 times, every invocation returned the stop signal, and all invocations are on the
  same node buffer with the same subkey position, which is either one dataset group or
  one whole node of a fixed-length table. If it was not invoked the stop flag is
  unchanged, and if it was the flag is set.
\<close>

definition one_group :: "'c dec_state \<Rightarrow> 'c dec_state \<Rightarrow> bool" where
  "one_group ex ex' =
     (\<exists>cs. calls ex' = calls ex @ cs \<and> length cs \<le> 65535 \<and>
        (\<exists>node subkey. \<forall>c \<in> set cs. snd c \<and> a_node (fst c) = node \<and> a_subkey (fst c) = subkey) \<and>
        (if cs = [] then is_done ex' = is_done ex else is_done ex'))"

lemma one_group_refl [simp]: "one_group ex ex"
  by (simp add: one_group_def)












section \<open>The scan of the dump driver\<close>

text \<open>
  What the scan of one shard is expected to decode: the keys \<open>(k0, k1, k2, k3)\<close> in
  nested ascending order of \<open>k1\<close>, \<open>k2\<close>, \<open>k3\<close> for which the existence map is not
  zero, each decoded on the sector image with subkey filtering skipped; nothing for a
  shard with no sector image.
\<close>

definition sector_keys :: "ldb_externs \<Rightarrow> byte \<Rightarrow> byte list list" where
  "sector_keys E k0 =
     [[k0, of_nat k1, of_nat k2, of_nat k3].
        k1 \<leftarrow> [0..<256], k2 \<leftarrow> [0..<256], k3 \<leftarrow> [0..<256],
        ldb_map_pointer_pos E [k0, of_nat k1, of_nat k2, of_nat k3] \<noteq> 0]"

definition sector_decodes ::
  "ldb_externs \<Rightarrow> ldb_table \<Rightarrow> byte \<Rightarrow> (byte list \<times> byte list \<times> bool) list" where
  "sector_decodes E table k0 =
     (case ldb_load_sector E table k0 of
        None \<Rightarrow> []
      | Some sector \<Rightarrow> map (\<lambda>k. (sector, k, True)) (sector_keys E k0))"

text \<open>
  The decoder calls that a scan of the whole table is expected to make, in order: those of
  shard 0, then of shard 1, and so on to shard 255.
\<close>

definition scan_plan :: "ldb_externs \<Rightarrow> ldb_table \<Rightarrow> (byte list \<times> byte list \<times> bool) list" where
  "scan_plan E table = concat (map (\<lambda>n. sector_decodes E table (of_nat n)) [0..<256])"

text \<open>
  The decoder run on a list of (sector image, key, skip-subkey flag) triples, one call
  after the other, each call starting from the context the previous one left. The result
  is \<open>None\<close> if one of the calls does not return, the fault of the first call that
  faults, and otherwise the context after the last call.
\<close>

primrec decode_all ::
  "ldb_externs \<Rightarrow> 'c handler \<Rightarrow> ldb_table \<Rightarrow> (byte list \<times> byte list \<times> bool) list \<Rightarrow> 'c
     \<Rightarrow> (fault + 'c) option" where
  "decode_all E h table [] c = Some (Inr c)"
| "decode_all E h table (d # ds) c =
     (case ldb_fetch_recordset E (Some (fst d)) table (fst (snd d)) (snd (snd d)) h c of
        None \<Rightarrow> None
      | Some (Inl f) \<Rightarrow> Some (Inl f)
      | Some (Inr r) \<Rightarrow> decode_all E h table ds (ctx r))"

text \<open>
  A part of the scan that asks for the sectors \<open>ks\<close> and makes the decoder calls \<open>ds\<close>:
  the calls are run in order on the context of the dump state, and the two logs grow by
  \<open>ks\<close> and \<open>ds\<close>.
\<close>

definition scanned ::
  "ldb_externs \<Rightarrow> 'c handler \<Rightarrow> ldb_table \<Rightarrow> byte list \<Rightarrow> (byte list \<times> byte list \<times> bool) list
     \<Rightarrow> 'c dump_state \<Rightarrow> (fault + 'c dump_state) option" where
  "scanned E h table ks ds st =
     (case decode_all E h table ds (d_ctx st) of
        None \<Rightarrow> None
      | Some (Inl f) \<Rightarrow> Some (Inl f)
      | Some (Inr c') \<Rightarrow>
          Some (Inr (st\<lparr>d_ctx := c', shards := shards st @ ks, decoded := decoded st @ ds\<rparr>)))"

lemma decode_all_append:
  "decode_all E h table (ds @ ds') c =
     (case decode_all E h table ds c of
        None \<Rightarrow> None
      | Some (Inl f) \<Rightarrow> Some (Inl f)
      | Some (Inr c') \<Rightarrow> decode_all E h table ds' c')"
  by (induction ds arbitrary: c) (simp_all split: option.splits sum.splits)

lemma scanned_nothing [simp]: "scanned E h table [] [] st = Some (Inr st)"
  by (simp add: scanned_def)

lemma scanned_then:
  "(case scanned E h table ks ds st of
      None \<Rightarrow> None
    | Some (Inl f) \<Rightarrow> Some (Inl f)
    | Some (Inr st') \<Rightarrow> scanned E h table ks' ds' st') =
   scanned E h table (ks @ ks') (ds @ ds') st"
  by (simp add: scanned_def decode_all_append split: option.splits sum.splits)

lemma for_each_scanned:
  assumes "\<And>x s. x \<in> set xs \<Longrightarrow> body x s = scanned E h table [] (F x) s"
  shows "for_each body xs s = scanned E h table [] (concat (map F xs)) s"
  using assms
proof (induction xs arbitrary: s)
  case Nil
  show ?case by simp
next
  case (Cons x xs)
  have "for_each body (x # xs) s =
      (case scanned E h table [] (F x) s of
         None \<Rightarrow> None
       | Some (Inl f) \<Rightarrow> Some (Inl f)
       | Some (Inr s') \<Rightarrow> scanned E h table [] (concat (map F xs)) s')"
    using Cons.prems [of x s] Cons.IH Cons.prems
    by (simp split: option.splits sum.splits)
  then show ?case
    by (simp add: scanned_then)
qed

lemma dump_key_scanned:
  "dump_key E h table sector k st =
     scanned E h table [] (if ldb_map_pointer_pos E k \<noteq> 0 then [(sector, k, True)] else []) st"
  by (simp add: dump_key_def scanned_def split: option.splits sum.splits)

lemma dump_sector_scanned:
  "dump_sector E h table k0 st = scanned E h table [k0] (sector_decodes E table k0) st"
proof (cases "ldb_load_sector E table k0")
  case None
  then show ?thesis
    by (simp add: dump_sector_def sector_decodes_def scanned_def)
next
  case (Some sector)
  let ?st1 = "st\<lparr>shards := shards st @ [k0]\<rparr>"
  let ?one = "\<lambda>k. if ldb_map_pointer_pos E k \<noteq> 0 then [(sector, k, True)] else []"
  have l3: "for_each (\<lambda>k3. dump_key E h table sector [k0, of_nat k1, of_nat k2, of_nat k3])
                [0..<256] s =
            scanned E h table []
              (concat (map (\<lambda>k3. ?one [k0, of_nat k1, of_nat k2, of_nat k3]) [0..<256])) s"
    for k1 k2 s
    by (rule for_each_scanned) (rule dump_key_scanned)
  have l2: "for_each (\<lambda>k2. for_each
                (\<lambda>k3. dump_key E h table sector [k0, of_nat k1, of_nat k2, of_nat k3]) [0..<256])
                [0..<256] s =
            scanned E h table []
              (concat (map (\<lambda>k2. concat (map
                  (\<lambda>k3. ?one [k0, of_nat k1, of_nat k2, of_nat k3]) [0..<256])) [0..<256])) s"
    for k1 s
    by (rule for_each_scanned) (rule l3)
  have l1: "for_each (\<lambda>k1. for_each (\<lambda>k2. for_each
                (\<lambda>k3. dump_key E h table sector [k0, of_nat k1, of_nat k2, of_nat k3]) [0..<256])
                [0..<256]) [0..<256] s =
            scanned E h table []
                (concat (map (\<lambda>k1. concat (map (\<lambda>k2. concat (map
                  (\<lambda>k3. ?one [k0, of_nat k1, of_nat k2, of_nat k3]) [0..<256])) [0..<256]))
                  [0..<256])) s"
    for s
    by (rule for_each_scanned) (rule l2)
  have eq: "concat (map (\<lambda>k1. concat (map (\<lambda>k2. concat (map
                  (\<lambda>k3. ?one [k0, of_nat k1, of_nat k2, of_nat k3]) [0..<256])) [0..<256]))
                  [0..<256]) = map (\<lambda>k. (sector, k, True)) (sector_keys E k0)"
    unfolding sector_keys_def
    by (simp add: map_concat comp_def if_distrib [of "map _"] cong: if_cong)
  have "dump_sector E h table k0 st =
      scanned E h table [] (map (\<lambda>k. (sector, k, True)) (sector_keys E k0)) ?st1"
    unfolding eq [symmetric] by (simp add: dump_sector_def Some l1)
  then show ?thesis
    by (simp add: scanned_def sector_decodes_def Some split: option.splits sum.splits)
qed

lemma dump_loop_scanned:
  "dump_loop E h table k0 st =
     scanned E h table (map of_nat [unat k0..<256])
       (concat (map (\<lambda>n. sector_decodes E table (of_nat n)) [unat k0..<256])) st"
proof (induction E h table k0 st rule: dump_loop.induct)
  case (1 E h table k0 st)
  have k0: "of_nat (unat k0) = k0" by simp
  show ?case
  proof (cases "k0 < 255")
    case True
    then have lt: "unat k0 < 256"
      by (simp add: word_less_nat_alt)
    have upt: "[unat k0..<256] = unat k0 # [unat (k0 + 1)..<256]"
      using lt by (simp add: upt_conv_Cons unat_byte_succ [OF True])
    have "dump_loop E h table k0 st =
        (case scanned E h table [k0] (sector_decodes E table k0) st of
           None \<Rightarrow> None
         | Some (Inl f) \<Rightarrow> Some (Inl f)
         | Some (Inr st') \<Rightarrow>
             scanned E h table (map of_nat [unat (k0 + 1)..<256])
               (concat (map (\<lambda>n. sector_decodes E table (of_nat n)) [unat (k0 + 1)..<256])) st')"
      using True "1.IH"
      by (subst dump_loop.simps) (simp add: dump_sector_scanned split: option.splits sum.splits)
    then show ?thesis
      unfolding upt by (simp add: scanned_then k0)
  next
    case False
    then have "unat k0 = unat (255 :: byte)"
      using unsigned_less [of k0, where 'a = nat] by (simp add: word_less_nat_alt)
    then have "k0 = 255"
      by (simp only: word_unat_eq_iff)
    then have upt: "[unat k0..<256] = [unat k0]" by simp
    have "dump_loop E h table k0 st = scanned E h table [k0] (sector_decodes E table k0) st"
      using False
      by (subst dump_loop.simps) (simp add: dump_sector_scanned split: option.splits sum.splits)
    then show ?thesis
      unfolding upt by (simp add: k0)
  qed
qed

text \<open>
  Claim C9, as amended. \<^verbatim>\<open>ldb_dump\<close> does exactly what running the decoder calls of the
  scan plan in order does: it returns if and only if every one of these calls returns,
  each call starting from the context that the previous one left, and it returns a fault
  if and only if one of them faults. When it returns, it has asked for the sector of
  every leading byte from 0 to 255 exactly once in ascending order and, for each shard
  with a sector image, has invoked the decoder on that image with subkey filtering
  skipped for exactly the keys whose existence-map entry is not zero, in nested
  ascending order of \<open>(k1, k2, k3)\<close>, and for no other key. A shard without a sector
  image contributes nothing and the scan goes on.
\<close>

theorem c9_dump_scans_every_shard:
  "ldb_dump E h table hex_bytes =
     (case decode_all E h table (scan_plan E table) hex_bytes of
        None \<Rightarrow> None
      | Some (Inl f) \<Rightarrow> Some (Inl f)
      | Some (Inr c') \<Rightarrow>
          Some (Inr \<lparr>d_ctx = c', shards = map of_nat [0..<256], decoded = scan_plan E table\<rparr>))"
  by (simp add: ldb_dump_def dump_loop_scanned scanned_def scan_plan_def
      split: option.splits sum.splits)

text \<open>
  A sufficient condition for the calls of a plan to return: each of them returns whatever
  the context it starts from. Every call of the scan plan is on the image of a loaded
  sector, for a key whose existence-map entry is not zero, with subkey filtering skipped.
\<close>

lemma in_sector_keys:
  "k \<in> set (sector_keys E k0) \<Longrightarrow> ldb_map_pointer_pos E k \<noteq> 0"
  by (auto simp: sector_keys_def split: if_splits)

lemma in_scan_plan:
  assumes "d \<in> set (scan_plan E table)"
  shows "\<exists>k0. ldb_load_sector E table k0 = Some (fst d) \<and>
           ldb_map_pointer_pos E (fst (snd d)) \<noteq> 0 \<and> snd (snd d)"
  using assms
  by (auto simp: scan_plan_def sector_decodes_def in_sector_keys split: option.splits)

lemma decode_all_returns:
  assumes "\<And>d c. d \<in> set ds \<Longrightarrow>
             \<exists>r. ldb_fetch_recordset E (Some (fst d)) table (fst (snd d)) (snd (snd d)) h c =
               Some (Inr r)"
  shows "\<exists>c'. decode_all E h table ds c = Some (Inr c')"
  using assms
proof (induction ds arbitrary: c)
  case Nil
  show ?case by simp
next
  case (Cons d ds)
  from Cons.prems [of d c] obtain r where
    "ldb_fetch_recordset E (Some (fst d)) table (fst (snd d)) (snd (snd d)) h c = Some (Inr r)"
    by auto
  moreover have "\<exists>c'. decode_all E h table ds (ctx r) = Some (Inr c')"
    by (rule Cons.IH) (rule Cons.prems, simp)
  ultimately show ?case by simp
qed

text \<open>
  A chain that never ends: whatever the cursor, the node source returns an empty node
  and the next cursor 1.
\<close>

definition ex_cyclic_externs :: ldb_externs where
  "ex_cyclic_externs = ex_externs\<lparr>ldb_node_read := (\<lambda>sector table key cursor. (1, 0, []))\<rparr>"

lemma cyclic_node_read [simp]:
  "ldb_node_read ex_cyclic_externs sector table key cursor = (1, 0, [])"
  by (simp add: ex_cyclic_externs_def)

lemma cyclic_node_body:
  "node_body ex_cyclic_externs h ex_table key skip_subkey subkey_ln [] 0 st = Some (Inr st)"
proof -
  have "dataset_loop ex_cyclic_externs h key skip_subkey [] 0 subkey_ln 0 st = Some (Inr st)"
    by (subst dataset_loop.simps) simp
  then show ?thesis
    by (simp add: node_body_def ex_table_def)
qed

lemma cyclic_node_loop:
  assumes "node_loop ex_cyclic_externs h sector ex_table key skip_subkey subkey_ln nxt st = Some r"
  shows "is_done st"
proof -
  have "\<not> is_done st \<longrightarrow> False"
    using assms
  proof (induction rule: node_loop_induct)
    case (last nxt st nxt' node_size node)
    then show ?case by simp
  next
    case (fault nxt st nxt' node_size node f)
    then show ?case by (auto simp: cyclic_node_body)
  next
    case (stop nxt st nxt' node_size node st')
    then show ?case by (auto simp: cyclic_node_body)
  next
    case (more nxt st nxt' node_size node st' r)
    then show ?case by (auto simp: cyclic_node_body)
  qed
  then show ?thesis by blast
qed

lemma cyclic_fetch:
  "ldb_fetch_recordset ex_cyclic_externs (Some sector) ex_table key True h c = None"
proof (rule ccontr)
  assume "ldb_fetch_recordset ex_cyclic_externs (Some sector) ex_table key True h c \<noteq> None"
  then obtain r where
    "node_loop ex_cyclic_externs h (Some sector) ex_table key True
       (word_of_int (key_ln ex_table - LDB_KEY_LN)) 0 (init_state c) = Some r"
    by (auto simp: ldb_fetch_recordset_def)
  from cyclic_node_loop [OF this] show False
    by (simp add: init_state_def)
qed

lemma for_each_first:
  "xs = x # ys \<Longrightarrow> body x s = None \<Longrightarrow> for_each body xs s = None"
  by simp

lemma for_each_second:
  "xs = x # y # ys \<Longrightarrow> body x s = Some (Inr s') \<Longrightarrow> body y s' = None \<Longrightarrow>
     for_each body xs s = None"
  by simp

text \<open>
  Claim C9 as stated fails: on the cyclic chain the first decoder call of the scan (key
  0, 0, 0, 1 of the example's existence map) never returns, and neither does
  \<^verbatim>\<open>ldb_dump\<close>.
\<close>

theorem c9_dump_hangs_on_cyclic_chain:
  "ldb_dump ex_cyclic_externs ex_continue ex_table () = None"
proof -
  let ?E = ex_cyclic_externs
  let ?body = "\<lambda>k1 k2 k3. dump_key ?E ex_continue ex_table [] [0, of_nat k1, of_nat k2, of_nat k3]"
  have upt: "[0..<256] = 0 # [Suc 0..<256]" "[0..<256] = 0 # Suc 0 # [2..<256]"
    by (simp_all add: upt_rec)
  have hit: "?body 0 0 (Suc 0) s = None" for s :: "unit dump_state"
    by (simp add: dump_key_def cyclic_fetch) (simp add: ex_cyclic_externs_def ex_externs_def)
  have miss: "?body 0 0 0 s = Some (Inr s)" for s :: "unit dump_state"
    by (simp add: dump_key_def ex_cyclic_externs_def ex_externs_def)
  have l3: "for_each (?body 0 0) [0..<256] s = None" for s :: "unit dump_state"
    by (rule for_each_second [OF upt(2) miss hit])
  have l2: "for_each (\<lambda>k2. for_each (?body 0 k2) [0..<256]) [0..<256] s = None"
    for s :: "unit dump_state"
    by (rule for_each_first [OF upt(1)]) (rule l3)
  have l1: "for_each (\<lambda>k1. for_each (\<lambda>k2. for_each (?body k1 k2) [0..<256]) [0..<256])
      [0..<256] s = None" for s :: "unit dump_state"
    by (rule for_each_first [OF upt(1)]) (rule l2)
  have ld: "ldb_load_sector ?E ex_table 0 = Some []"
    by (simp add: ex_cyclic_externs_def ex_externs_def)
  have "dump_sector ?E ex_continue ex_table 0 s = None" for s :: "unit dump_state"
    unfolding dump_sector_def Let_def ld option.case by (rule l1)
  then show ?thesis
    by (simp add: ldb_dump_def dump_loop.simps [of _ _ _ 0])
qed


text \<open>
  The scan plan of the example: shard 0 alone has a sector image, and the existence map
  is not zero for the two keys 0, 0, 0, 1 and 0, 255, 255, 255.
\<close>

lemma byte_of_nat_eq:
  "n < 256 \<Longrightarrow> m < 256 \<Longrightarrow> ((of_nat n :: byte) = of_nat m) = (n = m)"
  by (simp add: word_of_nat_eq_iff take_bit_nat_eq_self)

lemma ex_map_hits:
  assumes "k1 < 256" "k2 < 256" "k3 < 256"
  shows "(ldb_map_pointer_pos ex_externs [0, of_nat k1, of_nat k2, of_nat k3] \<noteq> 0) =
           (k1 = 0 \<and> k2 = 0 \<and> k3 = 1 \<or> k1 = 255 \<and> k2 = 255 \<and> k3 = 255)"
proof -
  have e: "((of_nat n :: byte) = 0) = (n = 0)" "((of_nat n :: byte) = 1) = (n = 1)"
    "((of_nat n :: byte) = 255) = (n = 255)" if "n < 256" for n
    using byte_of_nat_eq [OF that, of 0] byte_of_nat_eq [OF that, of 1]
      byte_of_nat_eq [OF that, of 255] by simp_all
  show ?thesis
    using assms by (simp add: ex_externs_def e)
qed

lemma concat_upt_none:
  "(\<And>x. x < n \<Longrightarrow> m \<le> x \<Longrightarrow> F x = []) \<Longrightarrow> concat (map F [m..<n]) = []"
  by simp

lemma concat_upt_hit:
  assumes "a < n" and "\<And>x. x < n \<Longrightarrow> x \<noteq> a \<Longrightarrow> F x = []"
  shows "concat (map F [0..<n]) = F a"
proof -
  have "[0..<n] = [0..<a] @ a # [Suc a..<n]"
    using assms(1) by (metis less_imp_add_positive upt_add_eq_append upt_conv_Cons zero_le
        add_0 le_add1 less_or_eq_imp_le)
  then have "concat (map F [0..<n]) =
      concat (map F [0..<a]) @ F a @ concat (map F [Suc a..<n])"
    by simp
  also have "concat (map F [0..<a]) = []"
    using assms by simp
  also have "concat (map F [Suc a..<n]) = []"
    using assms by simp
  finally show ?thesis by simp
qed


lemma concat_upt_two_hits:
  assumes "0 < n" and "\<And>x. x < Suc n \<Longrightarrow> x \<noteq> 0 \<Longrightarrow> x \<noteq> n \<Longrightarrow> F x = []"
  shows "concat (map F [0..<Suc n]) = F 0 @ F n"
proof -
  have "[0..<Suc n] = 0 # [Suc 0..<n] @ [n]"
    using assms(1) by (simp add: upt_rec [of 0])
  then have "concat (map F [0..<Suc n]) = F 0 @ concat (map F [Suc 0..<n]) @ F n"
    by simp
  also have "concat (map F [Suc 0..<n]) = []"
    using assms(2) by simp
  finally show ?thesis by simp
qed

lemma ex_sector_keys: "sector_keys ex_externs 0 = [[0, 0, 0, 1], [0, 255, 255, 255]]"
proof -
  define F3 where "F3 = (\<lambda>k1 k2 k3.
    if ldb_map_pointer_pos ex_externs [0 :: byte, of_nat k1, of_nat k2, of_nat k3] \<noteq> 0
    then [[0 :: byte, of_nat k1, of_nat k2, of_nat k3]] else [])"
  define F2 where "F2 = (\<lambda>k1 k2. concat (map (F3 k1 k2) [0..<256]))"
  define F1 where "F1 = (\<lambda>k1. concat (map (F2 k1) [0..<256]))"
  have keys: "sector_keys ex_externs 0 = concat (map F1 [0..<256])"
    by (simp add: sector_keys_def F1_def F2_def F3_def)
  have none3: "F3 k1 k2 k3 = []"
    if "k1 < 256" "k2 < 256" "k3 < 256"
      "\<not> (k1 = 0 \<and> k2 = 0 \<and> k3 = 1 \<or> k1 = 255 \<and> k2 = 255 \<and> k3 = 255)" for k1 k2 k3
    using ex_map_hits [OF that(1-3)] that(4) by (simp add: F3_def)
  have hit3: "F3 0 0 (Suc 0) = [[0, 0, 0, 1]]" "F3 255 255 255 = [[0, 255, 255, 255]]"
    by (simp_all add: F3_def ex_externs_def)
  have f2_00: "F2 0 0 = [[0, 0, 0, 1]]"
  proof -
    have "concat (map (F3 0 0) [0..<256]) = F3 0 0 (Suc 0)"
      by (rule concat_upt_hit) (simp_all add: none3)
    then show ?thesis by (simp add: F2_def hit3)
  qed
  have f2_ff: "F2 255 255 = [[0, 255, 255, 255]]"
  proof -
    have "concat (map (F3 255 255) [0..<256]) = F3 255 255 255"
      by (rule concat_upt_hit) (simp_all add: none3)
    then show ?thesis by (simp add: F2_def hit3)
  qed
  have f2_none: "F2 k1 k2 = []"
    if "k1 < 256" "k2 < 256" "\<not> (k1 = 0 \<and> k2 = 0 \<or> k1 = 255 \<and> k2 = 255)" for k1 k2
  proof -
    have "F3 k1 k2 k3 = []" if k3: "k3 < 256" for k3
      by (rule none3 [OF \<open>k1 < 256\<close> \<open>k2 < 256\<close> k3])
        (use \<open>\<not> (k1 = 0 \<and> k2 = 0 \<or> k1 = 255 \<and> k2 = 255)\<close> in blast)
    then have "concat (map (F3 k1 k2) [0..<256]) = []"
      by (intro concat_upt_none)
    then show ?thesis by (simp add: F2_def)
  qed
  have f1_0: "F1 0 = [[0, 0, 0, 1]]"
  proof -
    have "concat (map (F2 0) [0..<256]) = F2 0 0"
      by (rule concat_upt_hit) (simp_all add: f2_none)
    then show ?thesis by (simp add: F1_def f2_00)
  qed
  have f1_ff: "F1 255 = [[0, 255, 255, 255]]"
  proof -
    have "concat (map (F2 255) [0..<256]) = F2 255 255"
      by (rule concat_upt_hit) (simp_all add: f2_none)
    then show ?thesis by (simp add: F1_def f2_ff)
  qed
  have f1_none: "F1 k1 = []" if "k1 < 256" "k1 \<noteq> 0" "k1 \<noteq> 255" for k1
  proof -
    have "F2 k1 k2 = []" if k2: "k2 < 256" for k2
      by (rule f2_none [OF \<open>k1 < 256\<close> k2])
        (use \<open>k1 \<noteq> 0\<close> \<open>k1 \<noteq> 255\<close> in blast)
    then have "concat (map (F2 k1) [0..<256]) = []"
      by (intro concat_upt_none)
    then show ?thesis by (simp add: F1_def)
  qed
  have "concat (map F1 [0..<Suc 255]) = F1 0 @ F1 255"
    by (rule concat_upt_two_hits) (simp_all add: f1_none)
  then have "concat (map F1 [0..<256]) = [[0, 0, 0, 1], [0, 255, 255, 255]]"
    by (simp add: f1_0 f1_ff)
  with keys show ?thesis
    by simp
qed

lemma ex_scan_plan:
  "scan_plan ex_externs ex_table = [([], [0, 0, 0, 1], True), ([], [0, 255, 255, 255], True)]"
proof -
  define G where "G = (\<lambda>n. sector_decodes ex_externs ex_table (of_nat n))"
  have load: "ldb_load_sector ex_externs ex_table k0 = (if k0 = 0 then Some [] else None)" for k0
    by (simp add: ex_externs_def)
  have none: "G n = []" if "n < 256" "n \<noteq> 0" for n
  proof -
    have "(of_nat n :: byte) \<noteq> 0"
      using byte_of_nat_eq [OF that(1), of 0] that(2) by simp
    then show ?thesis
      by (simp add: G_def sector_decodes_def load)
  qed
  have hit: "G 0 = [([], [0, 0, 0, 1], True), ([], [0, 255, 255, 255], True)]"
    by (simp add: G_def sector_decodes_def load ex_sector_keys)
  have "concat (map G [0..<256]) = G 0"
    by (rule concat_upt_hit) (simp_all add: none)
  with hit show ?thesis
    by (simp add: scan_plan_def G_def)
qed

lemma ex_decode_two:
  "decode_all ex_externs ex_stop_first ex_table
     [([], [0, 0, 0, 1], True), ([], [0, 255, 255, 255], True)] 0 = Some (Inr 8)"
  by code_simp

theorem c9_dump_scans_every_shard_witness:
  "ldb_dump ex_externs ex_stop_first ex_table 0 =
     Some (Inr \<lparr>d_ctx = 8, shards = map of_nat [0..<256],
                decoded = [([], [0, 0, 0, 1], True), ([], [0, 255, 255, 255], True)]\<rparr>)"
  using c9_dump_scans_every_shard [of ex_externs ex_stop_first ex_table 0]
  unfolding ex_scan_plan ex_decode_two by simp

section \<open>The counter wraps\<close>

text \<open>
  A chain of \<open>2 ^ 32\<close> nodes of a fixed-length table: the node at cursor \<open>c\<close> holds one
  record of 2 bytes and is followed by the node at cursor \<open>c + 1\<close>, up to cursor
  \<open>2 ^ 32 - 1\<close>, which is the last.
\<close>

definition ex_long_externs :: ldb_externs where
  "ex_long_externs =
     ex_externs\<lparr>ldb_node_read := (\<lambda>sector table key cursor.
        (if cursor < 4294967295 then cursor + 1 else 0, 2, [0, 0]))\<rparr>"

lemma long_node_read [simp]:
  "ldb_node_read ex_long_externs sector table key cursor =
     (if cursor < 4294967295 then cursor + 1 else 0, 2, [0, 0])"
  by (simp add: ex_long_externs_def)

lemma long_node_body:
  "node_body ex_long_externs ex_continue ex_fixed_table key skip_subkey subkey_ln node node_size st =
     Some (Inr (invoke ex_continue (whole_node_args key node node_size) st))"
  by (simp add: node_body_def ex_fixed_table_def whole_node_args_def)

lemma invoked_continue [simp]: "\<not> snd (invoked ex_continue a st)"
  by (simp add: invoked_def ex_continue_def)

lemma long_chain:
  fixes c :: "64 word"
  assumes "unat c + n = 4294967295"
  shows "\<exists>st'. node_loop ex_long_externs ex_continue sector ex_fixed_table key skip_subkey
             subkey_ln c st = Some (Inr st') \<and>
           length (calls st') = length (calls st) + Suc n \<and>
           records st' = records st + of_nat (Suc n)"
  using assms
proof (induction n arbitrary: c st)
  case 0
  then have "\<not> c < 4294967295"
    by (simp add: word_less_nat_alt)
  then have "node_loop ex_long_externs ex_continue sector ex_fixed_table key skip_subkey
      subkey_ln c st = Some (Inr (invoke ex_continue (whole_node_args key [0, 0] 2) st))"
    by (subst node_loop.simps) (simp add: long_node_body)
  then show ?case by simp
next
  case (Suc n)
  then have lt: "c < 4294967295"
    by (simp add: word_less_nat_alt)
  have succ: "unat (c + 1) = unat c + 1"
    using Suc.prems by (simp add: unat_word_ariths)
  then have nz: "c + 1 \<noteq> 0"
    by (metis Suc_eq_plus1 nat.distinct(1) unat_0 unsigned_0)
  let ?st1 = "invoke ex_continue (whole_node_args key [0, 0] 2) st"
  have unfold: "node_loop ex_long_externs ex_continue sector ex_fixed_table key skip_subkey
      subkey_ln c st =
      node_loop ex_long_externs ex_continue sector ex_fixed_table key skip_subkey
      subkey_ln (c + 1) ?st1"
    using lt nz by (subst node_loop.simps) (simp add: long_node_body)
  from Suc.prems succ have "unat (c + 1) + n = 4294967295" by simp
  from Suc.IH [OF this, of ?st1] obtain st' where
    "node_loop ex_long_externs ex_continue sector ex_fixed_table key skip_subkey
       subkey_ln (c + 1) ?st1 = Some (Inr st')"
    "length (calls st') = length (calls ?st1) + Suc n"
    "records st' = records ?st1 + of_nat (Suc n)"
    by blast
  with unfold show ?case by simp
qed

lemma long_chain_decode:
  "count_and_invocations
     (ldb_fetch_recordset ex_long_externs None ex_fixed_table [7, 7, 7, 7] False ex_continue ()) =
     Some (0, 4294967296)"
proof -
  have op: "ldb_open ex_long_externs ex_fixed_table [7, 7, 7, 7]"
    by (simp add: ex_long_externs_def ex_externs_def)
  from long_chain [of 0 4294967295 None "[7, 7, 7, 7]" False
      "word_of_int (key_ln ex_fixed_table - LDB_KEY_LN)" "init_state ()"]
  obtain st' where
    run: "node_loop ex_long_externs ex_continue None ex_fixed_table [7, 7, 7, 7] False
       (word_of_int (key_ln ex_fixed_table - LDB_KEY_LN)) 0 (init_state ()) = Some (Inr st')" and
    len: "length (calls st') = length (calls (init_state ())) + Suc 4294967295" and
    rec: "records st' = records (init_state ()) + of_nat (Suc 4294967295)"
    by auto
  from len have l: "length (calls st') = 4294967296"
    by (simp add: init_state_def)
  have "(of_nat (Suc 4294967295) :: 32 word) = 0"
    by simp
  with rec have r: "records st' = 0"
    by (simp add: init_state_def)
  from run op l r show ?thesis
    by (simp add: ldb_fetch_recordset_def count_and_invocations_def)
qed


text \<open>
  Claim C2 as stated fails: on the chain of \<open>2 ^ 32\<close> nodes, with a handler that never
  stops, the handler is invoked 4294967296 times and the decoder returns 0.
\<close>

theorem c2_count_wraps_at_2_32:
  "count_and_invocations
     (ldb_fetch_recordset ex_long_externs None ex_fixed_table [7, 7, 7, 7] False ex_continue ()) =
     Some (0, 4294967296)"
  by (rule long_chain_decode)

section \<open>The existence check and the decode count\<close>


end
